theory Spec2Isabelle
  imports Main "HOL-Library.Sublist" "HOL-Library.Word"
begin

section \<open>Adaptive stream encoder: the quality ladder\<close>

text \<open>
  \<^verbatim>\<open>VideoProcessor.getQualityLevels(metadata)\<close> reads \<^verbatim>\<open>metadata.video?.height || 720\<close>
  and filters a fixed table of four levels. \<^verbatim>\<open>metadata.video\<close> is \<^verbatim>\<open>null\<close> when the probe
  found no video stream, and a field the probe did not report is \<^verbatim>\<open>undefined\<close>; both are
  \<open>None\<close> here. JavaScript's \<^verbatim>\<open>||\<close> takes the right operand when the left one is
  \<^verbatim>\<open>undefined\<close> or \<^verbatim>\<open>0\<close>.
\<close>

record quality =
  name :: string
  width :: nat
  height :: nat
  videoBitrate :: string
  audioBitrate :: string

record video_stream =
  vheight :: "nat option"

record metadata =
  video :: "video_stream option"

definition levels :: "quality list" where
  "levels =
    [\<lparr>name = ''1080p'', width = 1920, height = 1080, videoBitrate = ''5000k'', audioBitrate = ''192k''\<rparr>,
     \<lparr>name = ''720p'', width = 1280, height = 720, videoBitrate = ''2800k'', audioBitrate = ''128k''\<rparr>,
     \<lparr>name = ''480p'', width = 854, height = 480, videoBitrate = ''1400k'', audioBitrate = ''128k''\<rparr>,
     \<lparr>name = ''360p'', width = 640, height = 360, videoBitrate = ''800k'', audioBitrate = ''96k''\<rparr>]"

definition originalHeight :: "metadata \<Rightarrow> nat" where
  "originalHeight md =
    (case video md of
       None \<Rightarrow> 720
     | Some v \<Rightarrow> (case vheight v of None \<Rightarrow> 720 | Some h \<Rightarrow> if h = 0 then 720 else h))"

definition getQualityLevels :: "metadata \<Rightarrow> quality list" where
  "getQualityLevels md = filter (\<lambda>q. height q \<le> originalHeight md) levels"

section \<open>Chunked object store adapter: \<^verbatim>\<open>TelegramService\<close>\<close>

text \<open>
  The service talks to two collaborators: the local file system and the bot API of the
  messaging service. Both are part of an explicit \<open>world\<close> that every operation takes
  and returns.

  \<^item> \<open>files\<close> is the file system. A path is either a caller's path or one of the files
    \<^verbatim>\<open>temp/chunk_<i>.bin\<close> that \<^verbatim>\<open>splitVideoFile\<close> writes (\<open>TempChunk i\<close>); the decimal
    of \<open>i\<close> is part of the name, so distinct \<open>i\<close> give distinct files, and no caller's path
    is one of them.
  \<^item> \<open>objects\<close> is the channel: object \<open>k\<close> is what the \<open>k\<close>-th successful send stored, and
    \<open>k\<close> is its \<^verbatim>\<open>file_id\<close> (and \<^verbatim>\<open>message_id\<close>).
  \<^item> \<open>script\<close> decides the forthcoming bot calls in order: \<open>None\<close> lets a call succeed,
    \<open>Some msg\<close> makes it reject with \<^verbatim>\<open>Error(msg)\<close>; past its end every call succeeds.
  \<^item> \<open>calls\<close> logs the \<^verbatim>\<open>sendVideo\<close>/\<^verbatim>\<open>sendDocument\<close> calls made, \<open>slept\<close> the arguments
    of \<^verbatim>\<open>sleep(ms)\<close>.

  A rejected promise or a thrown exception is \<open>Inl\<close> of its message. The backup uploads that
  \<^verbatim>\<open>uploadVideo\<close> starts with \<^verbatim>\<open>setImmediate\<close> run detached from the caller and are not
  part of the result; they are left out.
\<close>

type_synonym bytes = "8 word list"

datatype path = Named string | TempChunk nat

datatype api_call = SendVideo | SendDocument

record message =
  message_id :: nat
  file_id :: nat
  file_size :: nat

record world =
  files :: "path \<rightharpoonup> bytes"
  objects :: "bytes list"
  script :: "string option list"
  calls :: "api_call list"
  slept :: "nat list"

record chunk_info =
  part :: nat
  chunk_messageId :: nat
  chunk_fileId :: nat
  chunk_size :: nat

datatype telegram_data =
    NotUploaded "string option" "string option"
  | UploadedSingle nat nat nat
  | UploadedChunked nat "chunk_info list"

text \<open>
  \<open>NotUploaded reason error\<close> is \<^verbatim>\<open>{uploaded: false, reason, error}\<close>;
  \<open>UploadedSingle messageId fileId size\<close> is \<^verbatim>\<open>{uploaded: true, uploadMethod: 'single', ...}\<close>;
  \<open>UploadedChunked totalChunks chunks\<close> is \<^verbatim>\<open>{uploaded: true, uploadMethod: 'chunked', ...}\<close>.
\<close>

fun uploaded :: "telegram_data \<Rightarrow> bool" where
  "uploaded (NotUploaded r e) = False"
| "uploaded (UploadedSingle m f s) = True"
| "uploaded (UploadedChunked n cs) = True"

record TelegramService =
  bot :: bool
  maxFileSize :: nat
  maxRetries :: nat
  retryDelay :: nat

text \<open>
  The constructor; its argument says whether both credentials are set. Without them the
  source leaves the three numbers unset, and every entry point returns before reading them.
\<close>

definition new_TelegramService :: "bool \<Rightarrow> TelegramService" where
  "new_TelegramService credentials =
    \<lparr>bot = credentials, maxFileSize = 50 * 1024 * 1024, maxRetries = 3, retryDelay = 5000\<rparr>"

definition sleep :: "nat \<Rightarrow> world \<Rightarrow> world" where
  "sleep ms w = w\<lparr>slept := slept w @ [ms]\<rparr>"

definition next_outcome :: "world \<Rightarrow> string option" where
  "next_outcome w = (case script w of [] \<Rightarrow> None | x # rest \<Rightarrow> x)"

definition bot_send :: "api_call \<Rightarrow> bytes \<Rightarrow> world \<Rightarrow> (string + message) \<times> world" where
  "bot_send api content w =
    (case next_outcome w of
       Some msg \<Rightarrow> (Inl msg, w\<lparr>script := tl (script w), calls := calls w @ [api]\<rparr>)
     | None \<Rightarrow>
         (Inr \<lparr>message_id = length (objects w), file_id = length (objects w),
               file_size = length content\<rparr>,
          w\<lparr>objects := objects w @ [content], script := tl (script w),
            calls := calls w @ [api]\<rparr>))"

text \<open>A send whose argument is \<^verbatim>\<open>fs.createReadStream(p)\<close>.\<close>

definition sendFile :: "api_call \<Rightarrow> path \<Rightarrow> world \<Rightarrow> (string + message) \<times> world" where
  "sendFile api p w =
    (case files w p of
       None \<Rightarrow> (Inl ''ENOENT'', w\<lparr>calls := calls w @ [api]\<rparr>)
     | Some content \<Rightarrow> bot_send api content w)"

text \<open>
  \<^verbatim>\<open>Math.ceil(a / b)\<close> for \<open>b > 0\<close>, on sizes that a JavaScript number holds exactly
  (below \<open>2 ^ 53\<close>).
\<close>

definition ceil_div :: "nat \<Rightarrow> nat \<Rightarrow> nat" where
  "ceil_div a b = (a + b - 1) div b"

text \<open>
  The loop of \<^verbatim>\<open>splitVideoFile\<close>: chunk \<open>i\<close> is the bytes \<open>start .. end - 1\<close> of the file,
  written to \<^verbatim>\<open>temp/chunk_<i>.bin\<close>.
\<close>

function split_loop ::
  "bytes \<Rightarrow> nat \<Rightarrow> nat \<Rightarrow> nat \<Rightarrow> path list \<Rightarrow> world \<Rightarrow> path list \<times> world" where
  "split_loop content chunkSize numChunks i chunks w =
    (if i < numChunks then
       (let start = i * chunkSize;
            end' = min (start + chunkSize) (length content)
        in split_loop content chunkSize numChunks (Suc i) (chunks @ [TempChunk i])
             (w\<lparr>files := (files w)(TempChunk i \<mapsto> take (end' - start) (drop start content))\<rparr>))
     else (chunks, w))"
  by pat_completeness auto
termination
  by (relation "measure (\<lambda>(content, chunkSize, numChunks, i, chunks, w). numChunks - i)") auto

declare split_loop.simps [simp del]

text \<open>
  With \<^verbatim>\<open>chunkSize = 0\<close> the source computes \<^verbatim>\<open>Math.ceil(fileSize / 0)\<close>, which is
  \<^verbatim>\<open>Infinity\<close>, and its loop does not end; both callers pass 45 MB. The model answers
  that case with an error of its own.
\<close>

definition splitVideoFile :: "string \<Rightarrow> nat \<Rightarrow> world \<Rightarrow> (string + path list) \<times> world" where
  "splitVideoFile videoPath chunkSize w =
    (case files w (Named videoPath) of
       None \<Rightarrow> (Inl ''ENOENT'', w)
     | Some content \<Rightarrow>
         if chunkSize = 0 then (Inl ''chunkSize 0'', w)
         else (case split_loop content chunkSize (ceil_div (length content) chunkSize) 0 [] w of
                 (chunks, w') \<Rightarrow> (Inr chunks, w')))"

text \<open>
  The loop of \<^verbatim>\<open>uploadLargeVideoToChannel\<close> over \<^verbatim>\<open>chunks[i]\<close>: send the chunk file as a
  document, record \<^verbatim>\<open>part: i + 1\<close>, remove the chunk file.
\<close>

fun upload_chunks ::
  "path list \<Rightarrow> nat \<Rightarrow> chunk_info list \<Rightarrow> world \<Rightarrow> (string + chunk_info list) \<times> world" where
  "upload_chunks [] i uploadedChunks w = (Inr uploadedChunks, w)"
| "upload_chunks (chunkPath # rest) i uploadedChunks w =
    (case sendFile SendDocument chunkPath w of
       (Inl e, w') \<Rightarrow> (Inl e, w')
     | (Inr result, w') \<Rightarrow>
         upload_chunks rest (Suc i)
           (uploadedChunks @
             [\<lparr>part = i + 1, chunk_messageId = message_id result,
               chunk_fileId = file_id result, chunk_size = file_size result\<rparr>])
           (w'\<lparr>files := (files w')(chunkPath := None)\<rparr>))"

definition uploadLargeVideoToChannel :: "string \<Rightarrow> world \<Rightarrow> (string + telegram_data) \<times> world" where
  "uploadLargeVideoToChannel videoPath w =
    (case splitVideoFile videoPath (45 * 1024 * 1024) w of
       (Inl e, w') \<Rightarrow> (Inl e, w')
     | (Inr chunks, w') \<Rightarrow>
         (case upload_chunks chunks 0 [] w' of
            (Inl e, w'') \<Rightarrow> (Inl e, w'')
          | (Inr uploadedChunks, w'') \<Rightarrow>
              (Inr (UploadedChunked (length chunks) uploadedChunks), w'')))"

definition uploadSmallVideoToChannel :: "string \<Rightarrow> world \<Rightarrow> (string + telegram_data) \<times> world" where
  "uploadSmallVideoToChannel videoPath w =
    (case sendFile SendVideo (Named videoPath) w of
       (Inl e, w') \<Rightarrow> (Inl e, w')
     | (Inr result, w') \<Rightarrow>
         (Inr (UploadedSingle (message_id result) (file_id result) (file_size result)), w'))"

definition uploadToChannel ::
  "TelegramService \<Rightarrow> string \<Rightarrow> world \<Rightarrow> (string + telegram_data) \<times> world" where
  "uploadToChannel svc videoPath w =
    (case files w (Named videoPath) of
       None \<Rightarrow> (Inl ''ENOENT'', w)
     | Some content \<Rightarrow>
         if length content > maxFileSize svc then uploadLargeVideoToChannel videoPath w
         else uploadSmallVideoToChannel videoPath w)"

text \<open>
  \<^verbatim>\<open>uploadWithRetry(uploadFunction, maxRetries)\<close>, entered with \<open>attempt = 1\<close>. A loop that
  ends without a \<^verbatim>\<open>return\<close> gives \<^verbatim>\<open>undefined\<close>, here \<open>Inr None\<close>.
\<close>

function uploadWithRetry_loop ::
  "TelegramService \<Rightarrow> (world \<Rightarrow> (string + 'a) \<times> world) \<Rightarrow> nat \<Rightarrow> nat \<Rightarrow> world
    \<Rightarrow> (string + 'a option) \<times> world" where
  "uploadWithRetry_loop svc uploadFunction maxRetries' attempt w =
    (if attempt \<le> maxRetries' then
       (case uploadFunction w of
          (Inr r, w') \<Rightarrow> (Inr (Some r), w')
        | (Inl e, w') \<Rightarrow>
            if attempt = maxRetries' then (Inl e, w')
            else uploadWithRetry_loop svc uploadFunction maxRetries' (Suc attempt)
                   (sleep (retryDelay svc * attempt) w'))
     else (Inr None, w))"
  by pat_completeness auto
termination
  by (relation "measure (\<lambda>(svc, f, maxRetries', attempt, w). Suc maxRetries' - attempt)") auto

declare uploadWithRetry_loop.simps [simp del]

definition uploadWithRetry ::
  "TelegramService \<Rightarrow> (world \<Rightarrow> (string + 'a) \<times> world) \<Rightarrow> world \<Rightarrow> (string + 'a option) \<times> world" where
  "uploadWithRetry svc uploadFunction w = uploadWithRetry_loop svc uploadFunction (maxRetries svc) 1 w"

definition uploadSmallVideoWithRetry ::
  "TelegramService \<Rightarrow> string \<Rightarrow> world \<Rightarrow> (string + telegram_data option) \<times> world" where
  "uploadSmallVideoWithRetry svc videoPath w = uploadWithRetry svc (uploadToChannel svc videoPath) w"

definition uploadLargeVideoWithRetry ::
  "TelegramService \<Rightarrow> string \<Rightarrow> world \<Rightarrow> (string + telegram_data option) \<times> world" where
  "uploadLargeVideoWithRetry svc videoPath w = uploadWithRetry svc (uploadLargeVideoToChannel videoPath) w"

text \<open>
  \<^verbatim>\<open>uploadVideo\<close>. The \<^verbatim>\<open>catch\<close> turns a rejection into \<^verbatim>\<open>{uploaded: false, error}\<close>.
  Spreading \<^verbatim>\<open>undefined\<close> gives an object with no \<^verbatim>\<open>uploaded\<close> field. The field
  \<^verbatim>\<open>redundancy\<close> of the result is not modelled.
\<close>

definition uploadVideo :: "TelegramService \<Rightarrow> string \<Rightarrow> world \<Rightarrow> telegram_data \<times> world" where
  "uploadVideo svc videoPath w =
    (if \<not> bot svc then (NotUploaded (Some ''Service not configured'') None, w)
     else
       (case files w (Named videoPath) of
          None \<Rightarrow> (NotUploaded (Some ''File not found'') None, w)
        | Some content \<Rightarrow>
            (case (if length content > maxFileSize svc
                   then uploadLargeVideoWithRetry svc videoPath w
                   else uploadSmallVideoWithRetry svc videoPath w) of
               (Inl e, w') \<Rightarrow> (NotUploaded None (Some e), w')
             | (Inr None, w') \<Rightarrow> (NotUploaded None None, w')
             | (Inr (Some primaryResult), w') \<Rightarrow> (primaryResult, w'))))"

text \<open>
  Download. \<^verbatim>\<open>bot.getFileStream(fileId)\<close> is one bot call; its stream carries the stored
  object. \<^verbatim>\<open>downloadChunkedVideo\<close> opens the destination (which empties it) and appends
  each chunk's data in the order of \<^verbatim>\<open>telegramData.chunks\<close>; a stream error rejects and
  leaves what was written so far. Iterating the missing \<^verbatim>\<open>chunks\<close> of a record that is not
  chunked throws.
\<close>

definition getFileStream :: "nat \<Rightarrow> world \<Rightarrow> (string + bytes) \<times> world" where
  "getFileStream fileId w =
    (case next_outcome w of
       Some msg \<Rightarrow> (Inl msg, w\<lparr>script := tl (script w)\<rparr>)
     | None \<Rightarrow>
         if fileId < length (objects w)
         then (Inr (objects w ! fileId), w\<lparr>script := tl (script w)\<rparr>)
         else (Inl ''file not found'', w\<lparr>script := tl (script w)\<rparr>))"

definition append_file :: "path \<Rightarrow> bytes \<Rightarrow> world \<Rightarrow> world" where
  "append_file p d w =
    w\<lparr>files := (files w)(p \<mapsto> (case files w p of None \<Rightarrow> d | Some old \<Rightarrow> old @ d))\<rparr>"

fun download_chunks :: "chunk_info list \<Rightarrow> path \<Rightarrow> world \<Rightarrow> (string + unit) \<times> world" where
  "download_chunks [] outputPath w = (Inr (), w)"
| "download_chunks (chunk # rest) outputPath w =
    (case getFileStream (chunk_fileId chunk) w of
       (Inl e, w') \<Rightarrow> (Inl e, w')
     | (Inr d, w') \<Rightarrow> download_chunks rest outputPath (append_file outputPath d w'))"

definition downloadChunkedVideo :: "telegram_data \<Rightarrow> string \<Rightarrow> world \<Rightarrow> (string + unit) \<times> world" where
  "downloadChunkedVideo telegramData outputPath w =
    (case telegramData of
       UploadedChunked n chunks \<Rightarrow>
         download_chunks chunks (Named outputPath) (w\<lparr>files := (files w)(Named outputPath \<mapsto> [])\<rparr>)
     | _ \<Rightarrow> (Inl ''TypeError: telegramData.chunks is not iterable'',
             w\<lparr>files := (files w)(Named outputPath \<mapsto> [])\<rparr>))"

subsection \<open>Uploads that overlap\<close>

text \<open>
  The functions above describe an upload during which nothing else touches the file system.
  The server starts uploads that overlap: the uploads of the extracted audio tracks are
  started together and awaited with \<^verbatim>\<open>Promise.all\<close>, and every \<^verbatim>\<open>POST /api/upload\<close> runs its
  own upload on the one shared service. An upload is then a task that takes one step for
  each operation the source awaits, and between two steps of one task any other task may
  take steps.

  \<^item> \<open>Called videoPath\<close>: \<^verbatim>\<open>uploadVideo\<close> was called. Its step checks the service and the
    file and reads the size. A file of at most \<^verbatim>\<open>maxFileSize\<close> writes no temporary file; its
    whole upload is this one step.
  \<^item> \<open>Attempt videoPath attempt\<close>: \<^verbatim>\<open>uploadWithRetry\<close> is about to call
    \<^verbatim>\<open>uploadLargeVideoToChannel\<close> for the \<open>attempt\<close>-th time. Its step is the \<^verbatim>\<open>fs.stat\<close> of
    \<^verbatim>\<open>splitVideoFile\<close>.
  \<^item> \<open>Splitting videoPath attempt totalSize numChunks i chunks\<close>: the loop of
    \<^verbatim>\<open>splitVideoFile\<close> at index \<open>i\<close>, \<open>totalSize\<close> being its \<^verbatim>\<open>fileSize\<close>. Its step writes
    the bytes \<open>start .. end - 1\<close> of the file, as it is then, to \<^verbatim>\<open>temp/chunk_<i>.bin\<close>.
  \<^item> \<open>Sending videoPath attempt chunks i uploadedChunks\<close>: the loop of
    \<^verbatim>\<open>uploadLargeVideoToChannel\<close> at index \<open>i\<close>. Its step sends \<^verbatim>\<open>chunks[i]\<close>, as it is then,
    as a document.
  \<^item> \<open>Removing videoPath attempt chunks i uploadedChunks\<close>: the part was recorded; the step
    is \<^verbatim>\<open>fs.remove(chunkPath)\<close>.
  \<^item> \<open>Returned telegramData\<close>: \<^verbatim>\<open>uploadVideo\<close> has returned.

  A rejection inside an attempt is caught by \<^verbatim>\<open>uploadWithRetry\<close>: after the last attempt
  \<^verbatim>\<open>uploadVideo\<close> returns \<^verbatim>\<open>{uploaded: false, error}\<close>, otherwise the task sleeps and attempts
  again (\<open>attempt_failed\<close>).
\<close>

datatype upload_task =
    Called string
  | Attempt string nat
  | Splitting string nat nat nat nat "path list"
  | Sending string nat "path list" nat "chunk_info list"
  | Removing string nat "path list" nat "chunk_info list"
  | Returned telegram_data

definition attempt_failed ::
  "TelegramService \<Rightarrow> string \<Rightarrow> nat \<Rightarrow> string \<Rightarrow> world \<Rightarrow> upload_task \<times> world" where
  "attempt_failed svc videoPath attempt e w =
    (if attempt = maxRetries svc then (Returned (NotUploaded None (Some e)), w)
     else (Attempt videoPath (Suc attempt), sleep (retryDelay svc * attempt) w))"

fun task_step :: "TelegramService \<Rightarrow> upload_task \<Rightarrow> world \<Rightarrow> upload_task \<times> world" where
  "task_step svc (Called videoPath) w =
    (if \<not> bot svc then (Returned (NotUploaded (Some ''Service not configured'') None), w)
     else
       (case files w (Named videoPath) of
          None \<Rightarrow> (Returned (NotUploaded (Some ''File not found'') None), w)
        | Some content \<Rightarrow>
            if length content > maxFileSize svc then (Attempt videoPath 1, w)
            else (case uploadVideo svc videoPath w of (td, w') \<Rightarrow> (Returned td, w'))))"
| "task_step svc (Attempt videoPath attempt) w =
    (if attempt \<le> maxRetries svc then
       (case files w (Named videoPath) of
          None \<Rightarrow> attempt_failed svc videoPath attempt ''ENOENT'' w
        | Some content \<Rightarrow>
            (Splitting videoPath attempt (length content)
               (ceil_div (length content) (45 * 1024 * 1024)) 0 [], w))
     else (Returned (NotUploaded None None), w))"
| "task_step svc (Splitting videoPath attempt totalSize numChunks i chunks) w =
    (if i < numChunks then
       (case files w (Named videoPath) of
          None \<Rightarrow> attempt_failed svc videoPath attempt ''ENOENT'' w
        | Some content \<Rightarrow>
            (let start = i * (45 * 1024 * 1024);
                 end' = min (start + 45 * 1024 * 1024) totalSize
             in (Splitting videoPath attempt totalSize numChunks (Suc i) (chunks @ [TempChunk i]),
                 w\<lparr>files := (files w)(TempChunk i \<mapsto> take (end' - start) (drop start content))\<rparr>)))
     else (Sending videoPath attempt chunks 0 [], w))"
| "task_step svc (Sending videoPath attempt chunks i uploadedChunks) w =
    (if i < length chunks then
       (case sendFile SendDocument (chunks ! i) w of
          (Inl e, w') \<Rightarrow> attempt_failed svc videoPath attempt e w'
        | (Inr result, w') \<Rightarrow>
            (Removing videoPath attempt chunks i
               (uploadedChunks @
                 [\<lparr>part = i + 1, chunk_messageId = message_id result,
                   chunk_fileId = file_id result, chunk_size = file_size result\<rparr>]), w'))
     else (Returned (UploadedChunked (length chunks) uploadedChunks), w))"
| "task_step svc (Removing videoPath attempt chunks i uploadedChunks) w =
    (Sending videoPath attempt chunks (Suc i) uploadedChunks,
     w\<lparr>files := (files w)(chunks ! i := None)\<rparr>)"
| "task_step svc (Returned td) w = (Returned td, w)"

fun run_tasks ::
  "TelegramService \<Rightarrow> nat list \<Rightarrow> upload_task list \<Rightarrow> world \<Rightarrow> upload_task list \<times> world" where
  "run_tasks svc [] tasks w = (tasks, w)"
| "run_tasks svc (n # schedule) tasks w =
    (if n < length tasks then
       (case task_step svc (tasks ! n) w of
          (t, w') \<Rightarrow> run_tasks svc schedule (tasks[n := t]) w')
     else run_tasks svc schedule tasks w)"

text \<open>
  A schedule lists which task takes the next step (\<open>run_tasks\<close>); \<open>task_steps\<close> is a task
  running alone, and \<open>returned\<close> is what \<^verbatim>\<open>uploadVideo\<close> makes of the outcome of
  \<^verbatim>\<open>uploadWithRetry\<close>.
\<close>

fun task_steps :: "TelegramService \<Rightarrow> nat \<Rightarrow> upload_task \<Rightarrow> world \<Rightarrow> upload_task \<times> world" where
  "task_steps svc 0 t w = (t, w)"
| "task_steps svc (Suc n) t w = (case task_step svc t w of (t', w') \<Rightarrow> task_steps svc n t' w')"

definition returned :: "(string + telegram_data option) \<times> world \<Rightarrow> upload_task \<times> world" where
  "returned r =
    (case r of
       (Inl e, w') \<Rightarrow> (Returned (NotUploaded None (Some e)), w')
     | (Inr None, w') \<Rightarrow> (Returned (NotUploaded None None), w')
     | (Inr (Some td), w') \<Rightarrow> (Returned td, w'))"

section \<open>Audio track extractor\<close>

text \<open>
  \<^verbatim>\<open>AudioExtractor.extractAudioTracks(videoPath, videoId, audioTracks, progressCallback)\<close>.
  The track list may be \<^verbatim>\<open>null\<close> or \<^verbatim>\<open>undefined\<close> (\<open>None\<close>). What the function does to
  the outside is logged as a list of effects: creating the audio directory, the progress
  callbacks (when a callback was passed, and taken to return normally; their rounded
  percentages are not modelled) and the runs of the transcoding engine. The engine is the
  parameter \<open>ffmpeg\<close>: for the track at position \<open>i\<close> with stream index \<open>k\<close> it either
  fails with a message or leaves an output file of some size. A failed or empty track is
  skipped by the \<^verbatim>\<open>catch\<close> inside the loop.
\<close>

record audio_track =
  track_index :: "nat option"
  track_language :: "string option"
  track_title :: "string option"

record audio_file_info =
  trackIndex :: nat
  fileSize :: nat
  language :: string
  title :: "string + nat"

datatype extract_effect =
    EnsureAudioDir
  | ProgressStart nat
  | ProgressTrack nat
  | RunExtraction nat nat
  | ProgressDone nat nat

text \<open>\<^verbatim>\<open>x || d\<close> on an optional string: the empty string is falsy as well.\<close>

definition or_string :: "string option \<Rightarrow> string \<Rightarrow> string" where
  "or_string x d = (case x of None \<Rightarrow> d | Some s \<Rightarrow> if s = [] then d else s)"

fun extract_loop ::
  "(nat \<Rightarrow> nat \<Rightarrow> string + nat) \<Rightarrow> bool \<Rightarrow> audio_track list \<Rightarrow> nat
    \<Rightarrow> audio_file_info list \<Rightarrow> extract_effect list \<Rightarrow> audio_file_info list \<times> extract_effect list" where
  "extract_loop ffmpeg cb [] i extractedAudioFiles log = (extractedAudioFiles, log)"
| "extract_loop ffmpeg cb (track # rest) i extractedAudioFiles log =
    (let trackIndex' = (case track_index track of None \<Rightarrow> i | Some k \<Rightarrow> if k = 0 then i else k);
         log1 = (if cb then log @ [ProgressTrack i] else log);
         log2 = log1 @ [RunExtraction i trackIndex']
     in case ffmpeg i trackIndex' of
          Inl e \<Rightarrow> extract_loop ffmpeg cb rest (Suc i) extractedAudioFiles log2
        | Inr sz \<Rightarrow>
            if sz = 0 then extract_loop ffmpeg cb rest (Suc i) extractedAudioFiles log2
            else extract_loop ffmpeg cb rest (Suc i)
                   (extractedAudioFiles @
                     [\<lparr>trackIndex = trackIndex', fileSize = sz,
                       language = or_string (track_language track) ''unknown'',
                       title = (case track_title track of
                                  None \<Rightarrow> Inr (i + 1)
                                | Some s \<Rightarrow> if s = [] then Inr (i + 1) else Inl s)\<rparr>])
                   log2)"

definition extractAudioTracks ::
  "(nat \<Rightarrow> nat \<Rightarrow> string + nat) \<Rightarrow> bool \<Rightarrow> audio_track list option
    \<Rightarrow> audio_file_info list \<times> extract_effect list" where
  "extractAudioTracks ffmpeg cb audioTracks =
    (case audioTracks of
       None \<Rightarrow> ([], [])
     | Some tracks \<Rightarrow>
         if length tracks \<le> 1 then ([], [])
         else
           (let totalTracks = length tracks;
                log0 = [EnsureAudioDir] @ (if cb then [ProgressStart totalTracks] else [])
            in case extract_loop ffmpeg cb tracks 0 [] log0 of
                 (extractedAudioFiles, log1) \<Rightarrow>
                   (extractedAudioFiles,
                    log1 @ (if cb then [ProgressDone (length extractedAudioFiles) totalTracks]
                            else []))))"

section \<open>Bulk upload of segment files: \<^verbatim>\<open>uploadHLSFiles\<close>\<close>

text \<open>
  The HLS directory is a tree of files and directories as \<^verbatim>\<open>fs.readdir\<close> lists them;
  a directory that does not exist is \<open>None\<close>. \<^verbatim>\<open>findHLSFiles\<close> walks it depth first and
  keeps the files whose name ends in \<^verbatim>\<open>.m3u8\<close> or \<^verbatim>\<open>.ts\<close>, with their path relative to
  the root.
\<close>

datatype entry = File string bytes | Dir string "entry list"

record hls_file =
  relativePath :: string
  file_content :: bytes

definition path_join :: "string \<Rightarrow> string \<Rightarrow> string" where
  "path_join relative file = (if relative = [] then file else relative @ ''/'' @ file)"

fun findHLSFiles :: "entry list \<Rightarrow> string \<Rightarrow> hls_file list"
  and visit :: "entry \<Rightarrow> string \<Rightarrow> hls_file list" where
  "findHLSFiles [] relative = []"
| "findHLSFiles (e # es) relative = visit e relative @ findHLSFiles es relative"
| "visit (Dir file es) relative = findHLSFiles es (path_join relative file)"
| "visit (File file bs) relative =
    (if suffix ''.m3u8'' file \<or> suffix ''.ts'' file
     then [\<lparr>relativePath = path_join relative file, file_content = bs\<rparr>] else [])"

text \<open>\<^verbatim>\<open>s.includes(t)\<close>: \<open>t\<close> occurs in \<open>s\<close> as a contiguous substring.\<close>

fun js_includes :: "string \<Rightarrow> string \<Rightarrow> bool" where
  "js_includes [] t = (t = [])"
| "js_includes (c # cs) t = (prefix t (c # cs) \<or> js_includes cs t)"

definition rate_limited :: "string \<Rightarrow> bool" where
  "rate_limited message = (js_includes message ''429'' \<or> js_includes message ''Too Many Requests'')"

datatype hls_result =
    HlsUploaded string nat nat
  | HlsFailed string string
  | HlsUndefined

text \<open>
  \<open>HlsUploaded relativePath messageId fileId\<close> and \<open>HlsFailed relativePath error\<close> are the two
  objects the per-file function returns; \<open>HlsUndefined\<close> is what leaving its \<^verbatim>\<open>while\<close>
  loop without a \<^verbatim>\<open>return\<close> would give.
\<close>

fun hls_uploaded :: "hls_result \<Rightarrow> bool" where
  "hls_uploaded (HlsUploaded p m f) = True"
| "hls_uploaded (HlsFailed p e) = False"
| "hls_uploaded HlsUndefined = False"

text \<open>
  \<^verbatim>\<open>Promise.all(batch.map(async (file) => ...))\<close>: the uploads of one batch run together.
  Each is a slot:

  \<^item> \<open>Waiting file retries outcome\<close>: its \<^verbatim>\<open>sendDocument\<close> call is under way, with
    \<open>retries\<close> the value of the variable \<^verbatim>\<open>retries\<close>; \<open>outcome\<close> is what the call will
    settle with, taken from the script when the call was made;
  \<^item> \<open>Sleeping file retries message\<close>: the call was rejected with a rate-limit message and the
    slot is in \<^verbatim>\<open>await this.sleep(retryDelay)\<close>;
  \<^item> \<open>Settled result\<close>: the per-file function has returned.
\<close>

datatype slot =
    Waiting hls_file nat "string + message"
  | Sleeping hls_file nat string
  | Settled hls_result

type_synonym scheduler = "slot list \<Rightarrow> world \<Rightarrow> nat"

text \<open>
  The head of the \<^verbatim>\<open>while (retries < maxRetries)\<close> loop up to its \<^verbatim>\<open>await\<close>: the call is
  made. \<open>maxRetries = 3\<close> and \<open>retryDelay = 45000\<close> are the local constants of the source.
\<close>

definition issue :: "hls_file \<Rightarrow> nat \<Rightarrow> world \<Rightarrow> slot \<times> world" where
  "issue file retries w =
    (if retries < 3 then
       (case bot_send SendDocument (file_content file) w of
          (outcome, w') \<Rightarrow> (Waiting file retries outcome, w'))
     else (Settled HlsUndefined, w))"

text \<open>
  What a slot does when the operation it awaits is over. A settled call returns the uploaded
  result, or enters the \<^verbatim>\<open>catch\<close>: a rate-limit message starts the sleep, any other message
  returns the failed result. After the sleep \<^verbatim>\<open>retries\<close> is incremented and the slot calls
  again if \<^verbatim>\<open>retries < maxRetries\<close>, and returns the failed result otherwise.
\<close>

fun slot_step :: "slot \<Rightarrow> world \<Rightarrow> slot \<times> world" where
  "slot_step (Waiting file retries (Inr result)) w =
    (Settled (HlsUploaded (relativePath file) (message_id result) (file_id result)), w)"
| "slot_step (Waiting file retries (Inl message)) w =
    (if rate_limited message then (Sleeping file retries message, sleep 45000 w)
     else (Settled (HlsFailed (relativePath file) message), w))"
| "slot_step (Sleeping file retries message) w =
    (if Suc retries < 3 then issue file (Suc retries) w
     else (Settled (HlsFailed (relativePath file) message), w))"
| "slot_step (Settled r) w = (Settled r, w)"

text \<open>
  \<^verbatim>\<open>batch.map\<close> runs each function up to its first \<^verbatim>\<open>await\<close>: the first calls of a batch are
  made in the order of the batch, before any of them has settled.
\<close>

fun start_batch :: "hls_file list \<Rightarrow> world \<Rightarrow> slot list \<times> world" where
  "start_batch [] w = ([], w)"
| "start_batch (file # rest) w =
    (case issue file 0 w of
       (s, w') \<Rightarrow> (case start_batch rest w' of (ss, w'') \<Rightarrow> (s # ss, w'')))"

fun settled :: "slot \<Rightarrow> bool" where
  "settled (Settled r) = True"
| "settled (Waiting file retries outcome) = False"
| "settled (Sleeping file retries message) = False"

fun results_of :: "slot \<Rightarrow> hls_result list" where
  "results_of (Settled r) = [r]"
| "results_of (Waiting file retries outcome) = []"
| "results_of (Sleeping file retries message) = []"

text \<open>
  In which order the pending slots of a batch go on is for the event loop to decide; a
  \<open>scheduler\<close> names, from the slots and the world, the slot that goes on next. \<open>pick\<close> takes
  its answer when that is a pending slot, and the first pending slot otherwise; \<open>slot_weight\<close>
  bounds the steps a slot can still take.
  \<^verbatim>\<open>Promise.all\<close> resolves when every slot has settled, with the results in the order of the
  batch.
\<close>

definition pick :: "scheduler \<Rightarrow> slot list \<Rightarrow> world \<Rightarrow> nat" where
  "pick schedule slots w =
    (if schedule slots w < length slots \<and> \<not> settled (slots ! schedule slots w) then schedule slots w
     else length (takeWhile settled slots))"

fun slot_weight :: "slot \<Rightarrow> nat" where
  "slot_weight (Waiting file retries outcome) = 2 * (3 - retries) + 2"
| "slot_weight (Sleeping file retries message) = 2 * (3 - retries) + 1"
| "slot_weight (Settled r) = 0"

function settle_batch :: "scheduler \<Rightarrow> slot list \<Rightarrow> world \<Rightarrow> hls_result list \<times> world" where
  "settle_batch schedule slots w =
    (if list_all settled slots then (concat (map results_of slots), w)
     else
       (case slot_step (slots ! pick schedule slots w) w of
          (s, w') \<Rightarrow> settle_batch schedule (slots[pick schedule slots w := s]) w'))"
  by pat_completeness auto
termination
proof (relation "measure (\<lambda>(schedule, slots, w). sum_list (map slot_weight slots))")
  show "wf (measure (\<lambda>(schedule, slots, w). sum_list (map slot_weight slots)))"
    by simp
next
  fix schedule :: scheduler and slots :: "slot list" and w :: world and s w'
  assume ns: "\<not> list_all settled slots"
    and st: "(s, w') = slot_step (slots ! pick schedule slots w) w"
  let ?n = "pick schedule slots w"
  have "dropWhile settled slots \<noteq> []"
    using ns by (simp add: dropWhile_eq_Nil_conv list_all_iff)
  moreover have "length (takeWhile settled slots) + length (dropWhile settled slots) = length slots"
    by (metis length_append takeWhile_dropWhile_id)
  ultimately have fst: "length (takeWhile settled slots) < length slots"
    by (cases "dropWhile settled slots") auto
  have n: "?n < length slots" and un: "\<not> settled (slots ! ?n)"
    using fst nth_length_takeWhile [OF fst] by (auto simp: pick_def)
  have dec: "slot_weight s < slot_weight (slots ! ?n)"
  proof (cases "slots ! ?n")
    case (Waiting hf retries outcome)
    with st show ?thesis
      by (cases outcome) (auto split: if_splits)
  next
    case (Sleeping hf retries message)
    with st show ?thesis
      by (auto simp: issue_def split: prod.splits if_splits)
  next
    case (Settled r)
    with un show ?thesis
      by simp
  qed
  have upd: "\<And>xs k y. k < length xs \<Longrightarrow> slot_weight y < slot_weight (xs ! k) \<Longrightarrow>
      sum_list (map slot_weight (xs[k := y])) < sum_list (map slot_weight xs)"
  proof -
    fix xs :: "slot list" and k y
    show "k < length xs \<Longrightarrow> slot_weight y < slot_weight (xs ! k) \<Longrightarrow>
      sum_list (map slot_weight (xs[k := y])) < sum_list (map slot_weight xs)"
      by (induction xs arbitrary: k) (auto split: nat.splits)
  qed
  from upd [OF n dec]
  show "((schedule, slots[?n := s], w'), (schedule, slots, w))
      \<in> measure (\<lambda>(schedule, slots, w). sum_list (map slot_weight slots))"
    by simp
qed

declare settle_batch.simps [simp del]

definition upload_batch :: "scheduler \<Rightarrow> hls_file list \<Rightarrow> world \<Rightarrow> hls_result list \<times> world" where
  "upload_batch schedule batch w =
    (case start_batch batch w of (slots, w') \<Rightarrow> settle_batch schedule slots w')"

text \<open>The \<^verbatim>\<open>for (let i = 0; i < hlsFiles.length; i += batchSize)\<close> loop, \<open>batchSize = 3\<close>, \<open>batchDelay = 3000\<close>.\<close>

function upload_batches ::
  "scheduler \<Rightarrow> hls_file list \<Rightarrow> nat \<Rightarrow> hls_result list \<Rightarrow> world \<Rightarrow> hls_result list \<times> world" where
  "upload_batches schedule hlsFiles i uploadResults w =
    (if i < length hlsFiles then
       (case upload_batch schedule (take 3 (drop i hlsFiles)) w of
          (batchResults, w') \<Rightarrow>
            upload_batches schedule hlsFiles (i + 3) (uploadResults @ batchResults)
              (if i + 3 < length hlsFiles then sleep 3000 w' else w'))
     else (uploadResults, w))"
  by pat_completeness auto
termination
  by (relation "measure (\<lambda>(schedule, hlsFiles, i, uploadResults, w). length hlsFiles - i)") auto

declare upload_batches.simps [simp del]

datatype hls_upload =
    HlsNotUploaded string "nat option"
  | HlsBatch bool nat nat "hls_result list"

text \<open>
  \<open>HlsNotUploaded reason totalFiles\<close> is \<^verbatim>\<open>{uploaded: false, reason, totalFiles}\<close>;
  \<open>HlsBatch uploaded totalFiles successfulUploads uploadResults\<close> is the result of a run
  that went through the batches.
\<close>

definition uploadHLSFiles ::
  "scheduler \<Rightarrow> TelegramService \<Rightarrow> entry list option \<Rightarrow> world \<Rightarrow> hls_upload \<times> world" where
  "uploadHLSFiles schedule svc hlsDir w =
    (case (if bot svc then hlsDir else None) of
       None \<Rightarrow> (HlsNotUploaded ''Service not configured or HLS directory not found'' None, w)
     | Some entries \<Rightarrow>
         (let hlsFiles = findHLSFiles entries []
          in if length hlsFiles = 0 then (HlsNotUploaded ''No HLS files found'' None, w)
             else if length hlsFiles > 100
             then (HlsNotUploaded ''Too many HLS files - would exceed Telegram rate limits''
                     (Some (length hlsFiles)), w)
             else
               (case upload_batches schedule hlsFiles 0 [] w of
                  (uploadResults, w') \<Rightarrow>
                    (let successfulUploads = length (filter hls_uploaded uploadResults)
                     in (HlsBatch (successfulUploads > 0) (length hlsFiles) successfulUploads
                           uploadResults, w')))))"

text \<open>
  The specification's words for the same run, to compare with the loop above: the files are
  taken three at a time, and between one batch and the next the service sleeps 3 seconds.
\<close>

function in_batches_of_three ::
  "scheduler \<Rightarrow> hls_file list \<Rightarrow> world \<Rightarrow> hls_result list \<times> world" where
  "in_batches_of_three schedule hlsFiles w =
    (if length hlsFiles \<le> 3 then upload_batch schedule hlsFiles w
     else
       (case upload_batch schedule (take 3 hlsFiles) w of
          (first, w') \<Rightarrow>
            (case in_batches_of_three schedule (drop 3 hlsFiles) (sleep 3000 w') of
               (others, w'') \<Rightarrow> (first @ others, w''))))"
  by pat_completeness auto
termination
  by (relation "measure (\<lambda>(schedule, hlsFiles, w). length hlsFiles)") auto

declare in_batches_of_three.simps [simp del]

section \<open>Processing orchestrator: the background task of the upload endpoint\<close>

text \<open>
  The task that \<^verbatim>\<open>POST /api/upload\<close> starts with \<^verbatim>\<open>setImmediate\<close>, as far as it writes
  the video's \<^verbatim>\<open>processingStatus\<close>. Every write replaces the whole status object (the
  field \<^verbatim>\<open>currentQuality\<close> is left out here).

  Modelled from the spec: \<^verbatim>\<open>services/databaseService\<close> is not among the sources.
  \<^verbatim>\<open>updateVideoMetadata(id, partialFields)\<close> replaces the given fields of the stored record
  (specification section 6); \<open>store_script\<close> decides the forthcoming calls of the store in
  order, \<open>Some e\<close> making a call reject with message \<open>e\<close>, and past its end every call
  succeeds.
\<close>

record processing_status =
  telegramUploading :: bool
  hlsProgress :: nat
  hlsStage :: "string option"
  thumbnailGenerating :: bool
  complete :: bool
  errors :: "string list"

record db_video =
  processingStatus :: processing_status
  hlsCloudData :: "bool option"
  store_script :: "string option list"

definition store_call :: "(db_video \<Rightarrow> db_video) \<Rightarrow> db_video \<Rightarrow> (string + unit) \<times> db_video" where
  "store_call change db =
    (case (case store_script db of [] \<Rightarrow> None | x # rest \<Rightarrow> x) of
       Some e \<Rightarrow> (Inl e, db\<lparr>store_script := tl (store_script db)\<rparr>)
     | None \<Rightarrow> (Inr (), (change db)\<lparr>store_script := tl (store_script db)\<rparr>))"

definition set_status :: "processing_status \<Rightarrow> db_video \<Rightarrow> (string + unit) \<times> db_video" where
  "set_status s db = store_call (\<lambda>d. d\<lparr>processingStatus := s\<rparr>) db"

text \<open>A call followed by \<^verbatim>\<open>.catch(err => console.warn(...))\<close>: a rejection is dropped.\<close>

definition caught :: "(string + unit) \<times> db_video \<Rightarrow> db_video" where
  "caught r = snd r"

text \<open>
  What the task meets on its way: the progress reports of the processing call (percentage
  and stage) and its outcome, whether the primary upload had succeeded, the
  \<^verbatim>\<open>FORCE_CLEANUP\<close> setting, and the outcome of \<^verbatim>\<open>uploadHLSFiles\<close> (its \<^verbatim>\<open>uploaded\<close> flag).
  The thumbnail step, the audio uploads and \<^verbatim>\<open>cleanupAudioFiles\<close> catch their own
  failures and write no status; they do not appear.
\<close>

record bg_env =
  reports :: "(nat \<times> string) list"
  processing :: "string + unit"
  telegramUploaded :: bool
  forceCleanup :: bool
  hlsUploaded :: bool

text \<open>
  The outcome of \<^verbatim>\<open>convertToHLSWithProgress\<close>, the processing call of a source with at most
  one audio track: a quality whose encode fails is skipped, and with no variant left the
  call throws. \<open>encodes q\<close> says whether the encode of quality \<open>q\<close> succeeds.
\<close>

definition convertToHLSWithProgress :: "metadata \<Rightarrow> (quality \<Rightarrow> bool) \<Rightarrow> string + unit" where
  "convertToHLSWithProgress md encodes =
    (if length (filter encodes (getQualityLevels md)) > 0 then Inr ()
     else Inl ''Failed to generate any HLS variants'')"

text \<open>\<^verbatim>\<open>progressCallback\<close>: one status write per report, \<^verbatim>\<open>complete: progress >= 100\<close>.\<close>

fun report_progress :: "(nat \<times> string) list \<Rightarrow> db_video \<Rightarrow> db_video" where
  "report_progress [] db = db"
| "report_progress ((progress, stage) # rest) db =
    report_progress rest
      (caught (set_status
         \<lparr>telegramUploading = False, hlsProgress = progress, hlsStage = Some stage,
          thumbnailGenerating = False, complete = (progress \<ge> 100), errors = []\<rparr> db))"

text \<open>The \<^verbatim>\<open>catch\<close> of the inner \<^verbatim>\<open>try\<close> around the processing.\<close>

definition processing_failed :: "string \<Rightarrow> db_video \<Rightarrow> db_video" where
  "processing_failed message db =
    caught (set_status
      \<lparr>telegramUploading = False, hlsProgress = 0, hlsStage = None,
       thumbnailGenerating = False, complete = False,
       errors = [''Video processing failed: '' @ message]\<rparr> db)"

text \<open>The \<^verbatim>\<open>catch\<close> of the outer \<^verbatim>\<open>try\<close> around the whole task.\<close>

definition background_failed :: "string \<Rightarrow> db_video \<Rightarrow> db_video" where
  "background_failed message db =
    caught (set_status
      \<lparr>telegramUploading = False, hlsProgress = 0, hlsStage = None,
       thumbnailGenerating = False, complete = True,
       errors = [''Background processing failed: '' @ message]\<rparr> db)"

text \<open>
  The inner \<^verbatim>\<open>try\<close>: processing with its progress reports, the write of the final status,
  the optional upload of the segment files with the write of \<^verbatim>\<open>hlsCloudData\<close> (inside a
  \<^verbatim>\<open>try\<close> of its own). It never throws.
\<close>

definition process_video :: "bg_env \<Rightarrow> db_video \<Rightarrow> db_video" where
  "process_video env db =
    (let db1 = report_progress (reports env) db
     in case processing env of
          Inl message \<Rightarrow> processing_failed message db1
        | Inr u \<Rightarrow>
            (case set_status
                    \<lparr>telegramUploading = False, hlsProgress = 100,
                     hlsStage = Some ''Processing complete'', thumbnailGenerating = False,
                     complete = True, errors = []\<rparr> db1 of
               (Inl message, db2) \<Rightarrow> processing_failed message db2
             | (Inr u', db2) \<Rightarrow>
                 if telegramUploaded env
                 then caught (store_call (\<lambda>d. d\<lparr>hlsCloudData := Some (hlsUploaded env)\<rparr>) db2)
                 else db2))"

text \<open>
  The cleanup after the inner \<^verbatim>\<open>try\<close>: with a successful primary upload or forced
  cleanup it reads the record back (\<^verbatim>\<open>getVideo\<close>, which may reject) and removes local
  files; it writes nothing.
\<close>

definition cleanup_local :: "bg_env \<Rightarrow> db_video \<Rightarrow> (string + unit) \<times> db_video" where
  "cleanup_local env db =
    (if telegramUploaded env \<or> forceCleanup env then store_call (\<lambda>d. d) db else (Inr (), db))"

definition background_task :: "bg_env \<Rightarrow> db_video \<Rightarrow> db_video" where
  "background_task env db =
    (case set_status
            \<lparr>telegramUploading = False, hlsProgress = 0, hlsStage = None,
             thumbnailGenerating = True, complete = False, errors = []\<rparr> db of
       (Inl message, db1) \<Rightarrow> background_failed message db1
     | (Inr u, db1) \<Rightarrow>
         (case set_status
                 \<lparr>telegramUploading = False, hlsProgress = 0, hlsStage = None,
                  thumbnailGenerating = False, complete = False, errors = []\<rparr> db1 of
            (Inl message, db2) \<Rightarrow> background_failed message db2
          | (Inr u', db2) \<Rightarrow>
              (case cleanup_local env (process_video env db2) of
                 (Inl message, db3) \<Rightarrow> background_failed message db3
               | (Inr u'', db3) \<Rightarrow> db3)))"

section \<open>HTTP handlers\<close>

text \<open>
  What a handler answers: a JSON body with a status, a redirect, a file streamed from disk
  with its content type, or a stream piped from cloud storage with its status and the
  headers that matter here.
\<close>

datatype response =
    Json nat string
  | Redirect string
  | StreamFile string string
  | Piped nat "string option" "string option"

text \<open>
  \<open>Json status error\<close>; \<open>Redirect location\<close>; \<open>StreamFile filePath contentType\<close>;
  \<open>Piped status contentRange contentLength\<close>, a header that is not set being \<open>None\<close>.
\<close>

subsection \<open>Paths: \<^verbatim>\<open>path.join\<close> on a POSIX host\<close>

text \<open>
  \<^verbatim>\<open>path.join\<close> joins its non-empty arguments with a slash and normalises the result:
  empty and \<^verbatim>\<open>.\<close> segments go, a \<^verbatim>\<open>..\<close> removes the segment before it (and is dropped
  at the root of an absolute path, kept at the front of a relative one), a trailing slash
  stays.
\<close>

text \<open>\<^verbatim>\<open>s.split(sep)\<close> for a separator of one character; \<open>cur\<close> collects the current piece.\<close>

fun split_char :: "char \<Rightarrow> string \<Rightarrow> string \<Rightarrow> string list" where
  "split_char sep [] cur = [rev cur]"
| "split_char sep (c # cs) cur =
    (if c = sep then rev cur # split_char sep cs [] else split_char sep cs (c # cur))"

fun normalizeString :: "bool \<Rightarrow> string list \<Rightarrow> string list \<Rightarrow> string list" where
  "normalizeString allowAboveRoot [] res = rev res"
| "normalizeString allowAboveRoot (s # ss) res =
    (if s = [] \<or> s = ''.'' then normalizeString allowAboveRoot ss res
     else if s = ''..'' then
       (case res of
          [] \<Rightarrow> normalizeString allowAboveRoot ss (if allowAboveRoot then [''..''] else [])
        | t # ts \<Rightarrow>
            if t \<noteq> ''..'' then normalizeString allowAboveRoot ss ts
            else normalizeString allowAboveRoot ss (if allowAboveRoot then ''..'' # res else res))
     else normalizeString allowAboveRoot ss (s # res))"

fun join_slash :: "string list \<Rightarrow> string" where
  "join_slash [] = []"
| "join_slash [s] = s"
| "join_slash (s # t # ts) = s @ ''/'' @ join_slash (t # ts)"

definition normalize :: "string \<Rightarrow> string" where
  "normalize p =
    (if p = [] then ''.''
     else
       (let isAbsolute = (hd p = CHR ''/'');
            trailingSeparator = (last p = CHR ''/'');
            body = join_slash (normalizeString (\<not> isAbsolute) (split_char (CHR ''/'') p []) [])
        in if body = [] then (if isAbsolute then ''/'' else if trailingSeparator then ''./'' else ''.'')
           else (if isAbsolute then ''/'' else []) @ body @ (if trailingSeparator then ''/'' else [])))"

definition path_join_all :: "string list \<Rightarrow> string" where
  "path_join_all parts =
    (let joined = join_slash (filter (\<lambda>s. s \<noteq> []) parts)
     in if joined = [] then ''.'' else normalize joined)"

subsection \<open>JavaScript numbers and strings in the range handling\<close>

text \<open>
  A number is an integer or \<^verbatim>\<open>NaN\<close> (\<open>None\<close>); the integers below \<open>2 ^ 53\<close> are the ones
  a JavaScript number holds exactly, and the statements stay below that.
  \<open>decimal\<close> is the decimal numeral a template literal prints for a natural number.
\<close>

function decimal :: "nat \<Rightarrow> string" where
  "decimal n = (if n < 10 then [char_of (48 + n)] else decimal (n div 10) @ [char_of (48 + n mod 10)])"
  by pat_completeness auto
termination
  by (relation "measure (\<lambda>n. n)") auto

declare decimal.simps [simp del]

definition js_show :: "int option \<Rightarrow> string" where
  "js_show x =
    (case x of
       None \<Rightarrow> ''NaN''
     | Some i \<Rightarrow> if i < 0 then ''-'' @ decimal (nat (- i)) else decimal (nat i))"






text \<open>A string option as a condition: \<^verbatim>\<open>undefined\<close>, \<^verbatim>\<open>null\<close> and the empty string are falsy.\<close>

definition truthy :: "string option \<Rightarrow> bool" where
  "truthy x = (case x of None \<Rightarrow> False | Some s \<Rightarrow> s \<noteq> [])"



subsection \<open>\<^verbatim>\<open>GET /api/stream/:id\<close>\<close>


record extracted_audio =
  ea_trackIndex :: int
  ea_uploaded :: bool
  ea_hlsUrl :: "string option"

record video_record =
  v_uploaded :: bool
  v_uploadMethod :: string
  v_size :: nat
  hlsPlaylist :: "string option"
  streamingMethod :: string
  extractedAudioFiles :: "extracted_audio list option"



subsection \<open>\<^verbatim>\<open>GET /api/audio/:videoId/:trackIndex\<close>\<close>

text \<open>
  \<open>parsedTrackIndex\<close> is the result of \<^verbatim>\<open>parseInt(trackIndex)\<close>, \<open>None\<close> for \<^verbatim>\<open>NaN\<close>, which
  is strictly equal to no stored index. \<open>cloud\<close> is what becomes of streaming the track from
  cloud storage when the handler tries it: \<^verbatim>\<open>streamVideo\<close> rejects; or it gives a stream
  that is piped to the response (with the \<^verbatim>\<open>range\<close> and \<^verbatim>\<open>contentLength\<close> of its result);
  or it gives a stream that emits \<^verbatim>\<open>error\<close> before any header was sent, which the
  \<^verbatim>\<open>stream.on('error')\<close> callback of the handler answers. \<open>localPlaylist\<close> is
  \<^verbatim>\<open>fs.pathExists\<close> of the track's own playlist under the HLS directory.
\<close>

datatype cloud_outcome =
    CloudThrows string
  | CloudPiped "string option" nat
  | CloudErrorBeforeHeaders

definition find_track :: "video_record \<Rightarrow> int option \<Rightarrow> extracted_audio option" where
  "find_track v parsedTrackIndex =
    (case extractedAudioFiles v of
       None \<Rightarrow> None
     | Some tracks \<Rightarrow> find (\<lambda>track. Some (ea_trackIndex track) = parsedTrackIndex) tracks)"

definition audio_handler ::
  "string \<Rightarrow> int option \<Rightarrow> string + video_record option \<Rightarrow> cloud_outcome \<Rightarrow> string option
    \<Rightarrow> bool \<Rightarrow> response" where
  "audio_handler videoId parsedTrackIndex lookup cloud rangeHeader localPlaylist =
    (case lookup of
       Inl e \<Rightarrow> Json 500 e
     | Inr None \<Rightarrow> Json 404 ''Video not found''
     | Inr (Some v) \<Rightarrow>
         (case find_track v parsedTrackIndex of
            None \<Rightarrow> Json 404 ''Audio track not found''
          | Some audioTrack \<Rightarrow>
              (let fallback =
                 (if truthy (ea_hlsUrl audioTrack) then Redirect (the (ea_hlsUrl audioTrack))
                  else if localPlaylist
                  then Redirect (''/api/hls/'' @ videoId @ ''/audio/track_''
                                 @ js_show parsedTrackIndex @ ''/playlist.m3u8'')
                  else if truthy (hlsPlaylist v)
                  then Redirect (''/api/hls/'' @ videoId @ ''/playlist.m3u8'')
                  else Json 404 ''Audio stream not available'')
               in if ea_uploaded audioTrack then
                    (case cloud of
                       CloudThrows e \<Rightarrow> fallback
                     | CloudPiped resultRange len \<Rightarrow>
                         if truthy resultRange \<and> truthy rangeHeader
                         then Piped 206 (Some (''bytes '' @ the resultRange @ ''/'' @ decimal len)) None
                         else Piped 200 None (Some (decimal len))
                     | CloudErrorBeforeHeaders \<Rightarrow>
                         if truthy (ea_hlsUrl audioTrack) then Redirect (the (ea_hlsUrl audioTrack))
                         else Json 500 ''Stream interrupted and no fallback available'')
                  else fallback)))"

subsection \<open>\<^verbatim>\<open>GET /api/hls/:videoId/*\<close>\<close>

text \<open>
  \<open>dirname\<close> is \<^verbatim>\<open>__dirname\<close>, \<open>found\<close> says whether the metadata store knows the video,
  \<open>exists\<close> is \<^verbatim>\<open>fs.pathExists\<close>. \<^verbatim>\<open>req.params[0] || 'playlist.m3u8'\<close> replaces an empty
  subpath.
\<close>

definition hls_handler :: "string \<Rightarrow> bool \<Rightarrow> (string \<Rightarrow> bool) \<Rightarrow> string \<Rightarrow> string \<Rightarrow> response" where
  "hls_handler dirname found exists videoId param0 =
    (let requestPath = (if param0 = [] then ''playlist.m3u8'' else param0)
     in if \<not> found then Json 404 ''Video not found''
        else
          (let hlsDir = path_join_all [dirname, ''hls'', videoId];
               filePath = path_join_all [hlsDir, requestPath]
           in if \<not> prefix hlsDir filePath then Json 403 ''Forbidden''
              else if \<not> exists filePath then
                (if js_includes requestPath ''audio/track_''
                 then Redirect (''/api/hls/'' @ videoId @ ''/playlist.m3u8'')
                 else if requestPath = ''playlist.m3u8'' then Redirect (''/api/stream/'' @ videoId)
                 else Json 404 ''HLS file not found'')
              else StreamFile filePath
                     (if suffix ''.m3u8'' filePath then ''application/vnd.apple.mpegurl''
                      else if suffix ''.ts'' filePath then ''video/mp2t''
                      else ''application/octet-stream'')))"

text \<open>
  What the security check is for: a path lies inside a directory when it is the directory
  or continues it after a slash.
\<close>

definition inside_dir :: "string \<Rightarrow> string \<Rightarrow> bool" where
  "inside_dir dir p \<longleftrightarrow> p = dir \<or> prefix (dir @ ''/'') p"

subsection \<open>Inputs for the examples\<close>

text \<open>
  A world holding one file \<^verbatim>\<open>v.mp4\<close> and an empty channel, and a configured service
  with a chosen per-object limit.
\<close>

definition ex_world :: "bytes \<Rightarrow> string option list \<Rightarrow> world" where
  "ex_world content outcomes =
    \<lparr>files = [Named ''v.mp4'' \<mapsto> content], objects = [], script = outcomes, calls = [], slept = []\<rparr>"

definition ex_service :: "nat \<Rightarrow> TelegramService" where
  "ex_service limit = \<lparr>bot = True, maxFileSize = limit, maxRetries = 3, retryDelay = 5000\<rparr>"

subsection \<open>Two uploads that overlap\<close>

text \<open>
  Two files of 60 000 000 bytes, \<^verbatim>\<open>a.mp4\<close> of bytes 1 and \<^verbatim>\<open>b.mp4\<close> of bytes 2, and a schedule
  of two uploads by the configured service, task 0 of \<^verbatim>\<open>a.mp4\<close> and task 1 of \<^verbatim>\<open>b.mp4\<close>: task
  0 splits its file, then task 1 splits its file, then task 0 sends and removes its two parts
  and returns.
\<close>

definition ex_two_files :: world where
  "ex_two_files =
    \<lparr>files = [Named ''a.mp4'' \<mapsto> replicate 60000000 1, Named ''b.mp4'' \<mapsto> replicate 60000000 2],
     objects = [], script = [], calls = [], slept = []\<rparr>"

definition ex_overlap :: "upload_task list \<times> world" where
  "ex_overlap =
    run_tasks (new_TelegramService True) [0, 0, 0, 0, 0, 1, 1, 1, 1, 0, 0, 0, 0, 0]
      [Called ''a.mp4'', Called ''b.mp4''] ex_two_files"

definition ex_overlap_record :: telegram_data where
  "ex_overlap_record =
    UploadedChunked 2
      [\<lparr>part = 1, chunk_messageId = 0, chunk_fileId = 0, chunk_size = 47185920\<rparr>,
       \<lparr>part = 2, chunk_messageId = 1, chunk_fileId = 1, chunk_size = 12814080\<rparr>]"

subsection \<open>Notions for the bulk upload statements\<close>

definition rate_limited_outcome :: "string option \<Rightarrow> bool" where
  "rate_limited_outcome x = (case x of None \<Rightarrow> False | Some message \<Rightarrow> rate_limited message)"

definition hls_effects :: "world \<Rightarrow> world \<Rightarrow> nat \<Rightarrow> nat list \<Rightarrow> bool" where
  "hls_effects w w' j new \<longleftrightarrow>
     script w' = drop j (script w)
     \<and> calls w' = calls w @ replicate j SendDocument
     \<and> slept w' = slept w @ new
     \<and> set new \<subseteq> {3000, 45000}
     \<and> length (filter (\<lambda>ms. ms = 45000) new)
         = length (filter rate_limited_outcome (take j (script w)))"

text \<open>
  Bookkeeping for the slots of a batch: \<open>owed\<close> counts a rate-limit rejection that is still
  to be answered with a sleep, \<open>budget\<close> bounds the calls a slot can still make, and
  \<open>slot_for file\<close>, \<open>result_for file\<close> say that a slot and a result belong to \<open>file\<close>.
\<close>

fun owed :: "slot \<Rightarrow> nat" where
  "owed (Waiting file retries (Inl message)) = (if rate_limited message then 1 else 0)"
| "owed (Waiting file retries (Inr result)) = 0"
| "owed (Sleeping file retries message) = 0"
| "owed (Settled r) = 0"

fun budget :: "slot \<Rightarrow> nat" where
  "budget (Waiting file retries outcome) = 2 - retries"
| "budget (Sleeping file retries message) = 2 - retries"
| "budget (Settled r) = 0"

fun result_for :: "hls_file \<Rightarrow> hls_result \<Rightarrow> bool" where
  "result_for file (HlsUploaded p m f) = (p = relativePath file)"
| "result_for file (HlsFailed p e) = (p = relativePath file)"
| "result_for file HlsUndefined = False"

fun slot_for :: "hls_file \<Rightarrow> slot \<Rightarrow> bool" where
  "slot_for file (Waiting f retries outcome) = (f = file \<and> retries < 3)"
| "slot_for file (Sleeping f retries message) = (f = file)"
| "slot_for file (Settled r) = result_for file r"

definition ex_hls_dir :: "entry list" where
  "ex_hls_dir =
    [File ''playlist.m3u8'' [1], Dir ''720p'' [File ''playlist.m3u8'' [2],
       File ''segment_000.ts'' [3], File ''notes.txt'' [4]], File ''segment_000.ts'' [5]]"

definition ex_hls_world :: world where
  "ex_hls_world =
    \<lparr>files = Map.empty, objects = [],
     script = [Some ''ETELEGRAM: 429 Too Many Requests: retry after 5'', None, Some ''socket hang up''],
     calls = [], slept = []\<rparr>"

text \<open>
  Two schedulers: the first pending slot of the batch goes on, or the last one. And a batch
  of three files whose first calls are all rejected with a rate-limit message.
\<close>

definition first_pending :: scheduler where
  "first_pending slots w = 0"

definition last_pending :: scheduler where
  "last_pending slots w = length slots - 1 - length (takeWhile settled (rev slots))"

definition ex_three_segments :: "entry list" where
  "ex_three_segments = [File ''a.ts'' [1], File ''b.ts'' [2], File ''c.ts'' [3]]"

definition ex_rate_limited_world :: world where
  "ex_rate_limited_world =
    \<lparr>files = Map.empty, objects = [],
     script = [Some ''429'', Some ''429'', Some ''429'', Some ''x'', Some ''x''],
     calls = [], slept = []\<rparr>"

subsection \<open>A stored video for the examples\<close>

definition ex_video :: video_record where
  "ex_video =
    \<lparr>v_uploaded = True, v_uploadMethod = ''single'', v_size = 1000,
     hlsPlaylist = Some ''/app/hls/abc/playlist.m3u8'', streamingMethod = ''adaptive'',
     extractedAudioFiles =
       Some [\<lparr>ea_trackIndex = 0, ea_uploaded = False, ea_hlsUrl = None\<rparr>,
             \<lparr>ea_trackIndex = 1, ea_uploaded = False, ea_hlsUrl = None\<rparr>]\<rparr>"

subsection \<open>A stored record and a failing run for the examples\<close>

definition ex_db :: db_video where
  "ex_db =
    \<lparr>processingStatus =
       \<lparr>telegramUploading = False, hlsProgress = 0, hlsStage = None,
        thumbnailGenerating = False, complete = False, errors = []\<rparr>,
     hlsCloudData = None, store_script = []\<rparr>"

definition ex_failing_run :: bg_env where
  "ex_failing_run =
    \<lparr>reports = [(0, ''Starting HLS generation''), (95, ''Creating master playlist'')],
     processing = convertToHLSWithProgress \<lparr>video = Some \<lparr>vheight = Some 720\<rparr>\<rparr> (\<lambda>q. False),
     telegramUploaded = True, forceCleanup = False, hlsUploaded = False\<rparr>"

section \<open>Properties\<close>

subsection \<open>Quality ladder\<close>

lemma originalHeight_known:
  "video md = Some v \<Longrightarrow> vheight v = Some h \<Longrightarrow> 0 < h \<Longrightarrow> originalHeight md = h"
  by (simp add: originalHeight_def)

text \<open>Without a reported height the ladder is the one of a 720p source.\<close>

lemma getQualityLevels_default:
  "video md = None \<or> (\<exists>v. video md = Some v \<and> (vheight v = None \<or> vheight v = Some 0)) \<Longrightarrow>
     map name (getQualityLevels md) = [''720p'', ''480p'', ''360p'']"
  by (auto simp: getQualityLevels_def originalHeight_def levels_def)

text \<open>
  Claim C4. For a source whose video stream reports a height \<open>h\<close>, the ladder is exactly
  the sublist of the four candidates 1080p, 720p, 480p, 360p with height at most \<open>h\<close>, so
  no produced quality is taller than the source; a 480p source gets 480p and 360p only.
\<close>

theorem getQualityLevels_filtered:
  assumes "video md = Some v" and "vheight v = Some h" and "0 < h"
  shows "getQualityLevels md = filter (\<lambda>q. height q \<le> h) levels
    \<and> map name levels = [''1080p'', ''720p'', ''480p'', ''360p'']
    \<and> (\<forall>q \<in> set (getQualityLevels md). height q \<le> h)
    \<and> (h = 480 \<longrightarrow> map name (getQualityLevels md) = [''480p'', ''360p''])"
proof -
  have oh: "originalHeight md = h"
    using assms by (rule originalHeight_known)
  have a: "getQualityLevels md = filter (\<lambda>q. height q \<le> h) levels"
    by (simp add: getQualityLevels_def oh)
  have b: "map name levels = [''1080p'', ''720p'', ''480p'', ''360p'']"
    by (simp add: levels_def)
  have c: "\<forall>q \<in> set (getQualityLevels md). height q \<le> h"
    by (simp add: a)
  have d: "h = 480 \<longrightarrow> map name (getQualityLevels md) = [''480p'', ''360p'']"
    by (simp add: a levels_def)
  from a b c d show ?thesis by blast
qed

theorem getQualityLevels_filtered_witness:
  "video \<lparr>video = Some \<lparr>vheight = Some 480\<rparr>\<rparr> = Some \<lparr>vheight = Some 480\<rparr>
   \<and> vheight \<lparr>vheight = Some 480\<rparr> = Some 480 \<and> (0::nat) < 480
   \<and> map name (getQualityLevels \<lparr>video = Some \<lparr>vheight = Some 480\<rparr>\<rparr>) = [''480p'', ''360p'']"
proof -
  have h1: "video \<lparr>video = Some \<lparr>vheight = Some 480\<rparr>\<rparr> = Some \<lparr>vheight = Some 480\<rparr>"
    by simp
  have h2: "vheight \<lparr>vheight = Some 480\<rparr> = Some 480"
    by simp
  have h3: "(0::nat) < 480"
    by simp
  from getQualityLevels_filtered [OF h1 h2 h3]
  have "(480::nat) = 480 \<longrightarrow>
    map name (getQualityLevels \<lparr>video = Some \<lparr>vheight = Some 480\<rparr>\<rparr>) = [''480p'', ''360p'']"
    by (elim conjE)
  then have "map name (getQualityLevels \<lparr>video = Some \<lparr>vheight = Some 480\<rparr>\<rparr>) = [''480p'', ''360p'']"
    by (rule mp) (rule refl)
  with h1 h2 h3 show ?thesis by (intro conjI)
qed

subsection \<open>Splitting a file and uploading its chunks\<close>

lemma slice_eq:
  "take (min (start + cs) (length xs) - start) (drop start xs) = take cs (drop start xs)"
  by (cases "start \<le> length xs") (simp_all add: min_def)

lemma concat_slices_take:
  "concat (map (\<lambda>j. take cs (drop (j * cs) xs)) [0..<n]) = take (n * cs) xs"
proof (induction n)
  case 0
  show ?case by simp
next
  case (Suc n)
  have "take (n * cs) xs @ take cs (drop (n * cs) xs) = take (n * cs + cs) xs"
    by (simp add: take_add)
  with Suc show ?case by (simp add: add.commute)
qed

lemma ceil_div_covers:
  assumes "0 < b"
  shows "a \<le> ceil_div a b * b"
proof -
  let ?m = "a + b - 1"
  have "?m mod b < b"
    using assms by simp
  moreover have "?m div b * b + ?m mod b = ?m"
    by simp
  ultimately have "a \<le> ?m div b * b"
    using assms by linarith
  then show ?thesis
    by (simp add: ceil_div_def)
qed

lemma concat_slices_all:
  "0 < cs \<Longrightarrow>
    concat (map (\<lambda>j. take cs (drop (j * cs) xs)) [0..<ceil_div (length xs) cs]) = xs"
  by (simp add: concat_slices_take ceil_div_covers)

lemma split_loop_fst:
  "fst (split_loop content cs n i chunks w) = chunks @ map TempChunk [i..<n]"
proof (induction content cs n i chunks w rule: split_loop.induct)
  case (1 content cs n i chunks w)
  show ?case
  proof (cases "i < n")
    case True
    with 1 show ?thesis
      by (subst split_loop.simps) (simp add: Let_def upt_conv_Cons)
  next
    case False
    then show ?thesis
      by (subst split_loop.simps) simp
  qed
qed

lemma split_loop_frame:
  "objects (snd (split_loop content cs n i chunks w)) = objects w
   \<and> script (snd (split_loop content cs n i chunks w)) = script w
   \<and> calls (snd (split_loop content cs n i chunks w)) = calls w
   \<and> slept (snd (split_loop content cs n i chunks w)) = slept w
   \<and> files (snd (split_loop content cs n i chunks w)) (Named q) = files w (Named q)"
proof (induction content cs n i chunks w rule: split_loop.induct)
  case (1 content cs n i chunks w)
  show ?case
  proof (cases "i < n")
    case True
    with 1 show ?thesis
      by (subst (1 2 3 4 5) split_loop.simps) (simp add: Let_def)
  next
    case False
    then show ?thesis
      by (subst (1 2 3 4 5) split_loop.simps) simp
  qed
qed

lemma split_loop_files:
  "files (snd (split_loop content cs n i chunks w)) (TempChunk j) =
     (if i \<le> j \<and> j < n then Some (take cs (drop (j * cs) content)) else files w (TempChunk j))"
proof (induction content cs n i chunks w rule: split_loop.induct)
  case (1 content cs n i chunks w)
  show ?case
  proof (cases "i < n")
    case True
    with 1 show ?thesis
      by (subst split_loop.simps) (auto simp add: Let_def slice_eq)
  next
    case False
    then show ?thesis
      by (subst split_loop.simps) auto
  qed
qed

lemma bot_send_frame:
  "bot_send api d w = (r, w') \<Longrightarrow>
     files w' = files w \<and> slept w' = slept w \<and> calls w' = calls w @ [api]
     \<and> prefix (objects w) (objects w')"
  by (auto simp: bot_send_def split: option.splits)

lemma bot_send_ok:
  "bot_send api d w = (Inr m, w') \<Longrightarrow>
     objects w' = objects w @ [d] \<and> file_id m = length (objects w)
     \<and> message_id m = length (objects w) \<and> file_size m = length d"
  by (auto simp: bot_send_def split: option.splits)

lemma sendFile_frame:
  "sendFile api p w = (r, w') \<Longrightarrow>
     files w' = files w \<and> slept w' = slept w \<and> calls w' = calls w @ [api]
     \<and> prefix (objects w) (objects w')"
  by (auto simp: sendFile_def split: option.splits dest: bot_send_frame)

lemma sendFile_ok:
  "sendFile api p w = (Inr m, w') \<Longrightarrow>
     \<exists>d. files w p = Some d \<and> objects w' = objects w @ [d] \<and> file_id m = length (objects w)
       \<and> message_id m = length (objects w) \<and> file_size m = length d"
  by (auto simp: sendFile_def split: option.splits dest: bot_send_ok)

lemma upload_chunks_frame:
  "upload_chunks ps i acc w = (r, w') \<Longrightarrow> Named q \<notin> set ps \<Longrightarrow>
     files w' (Named q) = files w (Named q) \<and> slept w' = slept w
     \<and> (\<exists>new. calls w' = calls w @ new \<and> set new \<subseteq> {SendDocument})
     \<and> prefix (objects w) (objects w')"
proof (induction ps arbitrary: i acc w)
  case Nil
  then show ?case by auto
next
  case (Cons p ps)
  obtain r1 w1 where s: "sendFile SendDocument p w = (r1, w1)"
    by (cases "sendFile SendDocument p w")
  note f1 = sendFile_frame [OF s]
  show ?case
  proof (cases r1)
    case (Inl e)
    with Cons.prems s f1 show ?thesis by auto
  next
    case (Inr m)
    let ?w2 = "w1\<lparr>files := (files w1)(p := None)\<rparr>"
    from Cons.prems s Inr
    have rest: "upload_chunks ps (Suc i)
        (acc @ [\<lparr>part = i + 1, chunk_messageId = message_id m,
                 chunk_fileId = file_id m, chunk_size = file_size m\<rparr>]) ?w2 = (r, w')"
      by simp
    from Cons.prems have nq: "Named q \<notin> set ps" and pq: "p \<noteq> Named q"
      by auto
    note ih = Cons.IH [OF rest nq]
    from ih f1 pq have a: "files w' (Named q) = files w (Named q)"
      by simp
    from ih f1 have b: "slept w' = slept w"
      by simp
    from ih obtain new where n: "calls w' = calls ?w2 @ new" "set new \<subseteq> {SendDocument}"
      by blast
    with f1 have "calls w' = calls w @ (SendDocument # new)" "set (SendDocument # new) \<subseteq> {SendDocument}"
      by simp_all
    then have c: "\<exists>new. calls w' = calls w @ new \<and> set new \<subseteq> {SendDocument}"
      by blast
    from ih f1 have d: "prefix (objects w) (objects w')"
      by (auto intro: prefix_order.trans)
    from a b c d show ?thesis by blast
  qed
qed

lemma upload_chunks_ok:
  "upload_chunks ps i acc w = (Inr ucs, w') \<Longrightarrow> distinct ps \<Longrightarrow>
     length ds = length ps \<Longrightarrow> (\<forall>k < length ps. files w (ps ! k) = Some (ds ! k)) \<Longrightarrow>
     objects w' = objects w @ ds
     \<and> map part ucs = map part acc @ [Suc i..<Suc i + length ps]
     \<and> map chunk_fileId ucs = map chunk_fileId acc @ [length (objects w)..<length (objects w) + length ps]
     \<and> map chunk_size ucs = map chunk_size acc @ map length ds"
proof (induction ps arbitrary: i acc w ds)
  case Nil
  then show ?case by auto
next
  case (Cons p ps)
  from Cons.prems(3) obtain d ds' where ds: "ds = d # ds'" "length ds' = length ps"
    by (cases ds) auto
  from Cons.prems(4) ds have fp: "files w p = Some d"
    by auto
  obtain r1 w1 where s: "sendFile SendDocument p w = (r1, w1)"
    by (cases "sendFile SendDocument p w")
  note f1 = sendFile_frame [OF s]
  show ?case
  proof (cases r1)
    case (Inl e)
    with Cons.prems(1) s show ?thesis by simp
  next
    case (Inr m)
    let ?w2 = "w1\<lparr>files := (files w1)(p := None)\<rparr>"
    let ?acc = "acc @ [\<lparr>part = i + 1, chunk_messageId = message_id m,
                 chunk_fileId = file_id m, chunk_size = file_size m\<rparr>]"
    from Cons.prems(1) s Inr
    have rest: "upload_chunks ps (Suc i) ?acc ?w2 = (Inr ucs, w')"
      by simp
    from s Inr fp sendFile_ok [of SendDocument p w m w1]
    have ok: "objects w1 = objects w @ [d]" "file_id m = length (objects w)" "file_size m = length d"
      by auto
    from Cons.prems(2) have dist: "distinct ps" and pn: "p \<notin> set ps"
      by auto
    have fs: "\<forall>k < length ps. files ?w2 (ps ! k) = Some (ds' ! k)"
    proof (intro allI impI)
      fix k assume k: "k < length ps"
      then have "ps ! k \<noteq> p" using pn by (metis nth_mem)
      moreover from Cons.prems(4) k ds have "files w (ps ! k) = Some (ds' ! k)"
        by (metis Suc_less_eq length_Cons nth_Cons_Suc)
      ultimately show "files ?w2 (ps ! k) = Some (ds' ! k)"
        using f1 by simp
    qed
    note ih = Cons.IH [OF rest dist ds(2) fs]
    have u1: "[Suc i..<Suc i + length (p # ps)] = Suc i # [Suc (Suc i)..<Suc (Suc i) + length ps]"
      by (simp add: upt_conv_Cons del: upt_Suc)
    have u2: "[length (objects w)..<length (objects w) + length (p # ps)] =
        length (objects w) # [length (objects w1)..<length (objects w1) + length ps]"
      by (simp add: ok upt_conv_Cons del: upt_Suc)
    from ih ok ds show ?thesis
      unfolding u1 u2 by simp
  qed
qed


lemma ceil_div_tight:
  assumes "0 < b" and "0 < a"
  shows "(ceil_div a b - 1) * b < a"
proof -
  let ?m = "a + b - 1"
  have "?m div b * b \<le> ?m"
    by simp
  moreover have "(?m div b - 1) * b = ?m div b * b - b"
    by (simp add: diff_mult_distrib)
  ultimately have "(?m div b - 1) * b < a"
    using assms by linarith
  then show ?thesis
    by (simp add: ceil_div_def)
qed

lemma splitVideoFile_ok:
  assumes "files w (Named p) = Some content" and "0 < cs"
  shows "\<exists>w1. splitVideoFile p cs w = (Inr (map TempChunk [0..<ceil_div (length content) cs]), w1)
    \<and> objects w1 = objects w \<and> script w1 = script w \<and> calls w1 = calls w \<and> slept w1 = slept w
    \<and> (\<forall>q. files w1 (Named q) = files w (Named q))
    \<and> (\<forall>j < ceil_div (length content) cs. files w1 (TempChunk j) = Some (take cs (drop (j * cs) content)))"
proof -
  let ?n = "ceil_div (length content) cs"
  let ?r = "split_loop content cs ?n 0 [] w"
  have "splitVideoFile p cs w = (Inr (fst ?r), snd ?r)"
    using assms by (simp add: splitVideoFile_def split: prod.splits)
  moreover have "fst ?r = map TempChunk [0..<?n]"
    by (simp add: split_loop_fst)
  moreover have "\<forall>j < ?n. files (snd ?r) (TempChunk j) = Some (take cs (drop (j * cs) content))"
    by (simp add: split_loop_files)
  ultimately show ?thesis
    using split_loop_frame [of content cs ?n 0 "[]" w] by auto
qed

lemma uploadLargeVideoToChannel_frame:
  assumes "uploadLargeVideoToChannel p w = (r, w')"
  shows "files w' (Named q) = files w (Named q) \<and> slept w' = slept w
     \<and> (\<exists>new. calls w' = calls w @ new \<and> set new \<subseteq> {SendDocument})
     \<and> prefix (objects w) (objects w')"
proof (cases "files w (Named p)")
  case None
  with assms show ?thesis
    by (auto simp: uploadLargeVideoToChannel_def splitVideoFile_def)
next
  case (Some content)
  let ?n = "ceil_div (length content) 47185920"
  from splitVideoFile_ok [OF Some, of 47185920]
  obtain w1 where sp: "splitVideoFile p 47185920 w = (Inr (map TempChunk [0..<?n]), w1)"
    and fr: "objects w1 = objects w" "calls w1 = calls w" "slept w1 = slept w"
      "\<forall>q. files w1 (Named q) = files w (Named q)"
    by auto
  obtain r2 w2 where up: "upload_chunks (map TempChunk [0..<?n]) 0 [] w1 = (r2, w2)"
    by (cases "upload_chunks (map TempChunk [0..<?n]) 0 [] w1")
  have nq: "Named q \<notin> set (map TempChunk [0..<?n])"
    by auto
  note f2 = upload_chunks_frame [OF up nq]
  from assms sp up have "w' = w2"
    by (auto simp: uploadLargeVideoToChannel_def split: sum.splits)
  with f2 fr show ?thesis
    by simp
qed

lemma uploadLargeVideoToChannel_ok:
  assumes "uploadLargeVideoToChannel p w = (Inr td, w')" and "files w (Named p) = Some content"
  shows "\<exists>chunks. td = UploadedChunked (ceil_div (length content) 47185920) chunks
     \<and> map part chunks = [1..<Suc (ceil_div (length content) 47185920)]
     \<and> map chunk_fileId chunks =
         [length (objects w)..<length (objects w) + ceil_div (length content) 47185920]
     \<and> map chunk_size chunks =
         map (\<lambda>j. length (take 47185920 (drop (j * 47185920) content)))
           [0..<ceil_div (length content) 47185920]
     \<and> objects w' = objects w @
         map (\<lambda>j. take 47185920 (drop (j * 47185920) content))
           [0..<ceil_div (length content) 47185920]"
proof -
  let ?n = "ceil_div (length content) 47185920"
  let ?ds = "map (\<lambda>j. take 47185920 (drop (j * 47185920) content)) [0..<?n]"
  from splitVideoFile_ok [OF assms(2), of 47185920]
  obtain w1 where sp: "splitVideoFile p 47185920 w = (Inr (map TempChunk [0..<?n]), w1)"
    and fr: "objects w1 = objects w"
    and fs: "\<forall>j < ?n. files w1 (TempChunk j) = Some (take 47185920 (drop (j * 47185920) content))"
    by auto
  from assms(1) sp obtain chunks
    where up: "upload_chunks (map TempChunk [0..<?n]) 0 [] w1 = (Inr chunks, w')"
      and td: "td = UploadedChunked ?n chunks"
    by (auto simp: uploadLargeVideoToChannel_def split: sum.splits prod.splits)
  have d: "distinct (map TempChunk [0..<?n])"
    by (simp add: distinct_map inj_on_def)
  have l: "length ?ds = length (map TempChunk [0..<?n])"
    by simp
  have f: "\<forall>k < length (map TempChunk [0..<?n]). files w1 (map TempChunk [0..<?n] ! k) = Some (?ds ! k)"
    using fs by simp
  from upload_chunks_ok [OF up d l f] fr td show ?thesis
    by (simp add: comp_def)
qed

subsection \<open>Retries and the choice of the upload path\<close>

lemma uploadSmallVideoToChannel_frame:
  assumes "uploadSmallVideoToChannel p w = (r, w')"
  shows "files w' = files w \<and> slept w' = slept w \<and> calls w' = calls w @ [SendVideo]
     \<and> prefix (objects w) (objects w')
     \<and> (\<forall>td. r = Inr td \<longrightarrow> (\<exists>m f s. td = UploadedSingle m f s))"
proof -
  obtain r1 w1 where s: "sendFile SendVideo (Named p) w = (r1, w1)"
    by (cases "sendFile SendVideo (Named p) w")
  from assms s have "w' = w1" and "\<forall>td. r = Inr td \<longrightarrow> (\<exists>m f s. td = UploadedSingle m f s)"
    by (auto simp: uploadSmallVideoToChannel_def split: sum.splits)
  with sendFile_frame [OF s] show ?thesis
    by simp
qed

lemma sleep_frame:
  "files (sleep ms w) = files w \<and> objects (sleep ms w) = objects w
   \<and> calls (sleep ms w) = calls w \<and> script (sleep ms w) = script w
   \<and> slept (sleep ms w) = slept w @ [ms]"
  by (simp add: sleep_def)

lemma uploadWithRetry_loop_inv:
  assumes "uploadWithRetry_loop svc f m a w = (res, w')"
    and "P w"
    and "\<And>v r v'. P v \<Longrightarrow> f v = (r, v') \<Longrightarrow> P v'"
    and "\<And>ms v. P v \<Longrightarrow> P (sleep ms v)"
  shows "P w' \<and> (\<forall>r. res = Inr (Some r) \<longrightarrow> (\<exists>v. P v \<and> f v = (Inr r, w')))"
  using assms
proof (induction svc f m a w rule: uploadWithRetry_loop.induct)
  case (1 svc f m a w)
  note run = "1.prems"(1) and pw = "1.prems"(2) and step = "1.prems"(3) and slp = "1.prems"(4)
  show ?case
  proof (cases "a \<le> m")
    case False
    with run pw show ?thesis
      by (subst (asm) uploadWithRetry_loop.simps) auto
  next
    case True
    obtain r1 w1 where fw: "f w = (r1, w1)"
      by (cases "f w")
    have p1: "P w1"
      using step [OF pw fw] .
    show ?thesis
    proof (cases r1)
      case (Inr r)
      with run True fw have "res = Inr (Some r) \<and> w' = w1"
        by (subst (asm) uploadWithRetry_loop.simps) simp
      with p1 fw Inr pw show ?thesis
        by auto
    next
      case (Inl e)
      show ?thesis
      proof (cases "a = m")
        case True
        with run fw Inl have "res = Inl e \<and> w' = w1"
          by (subst (asm) uploadWithRetry_loop.simps) simp
        with p1 show ?thesis
          by simp
      next
        case False
        with run True fw Inl
        have rest: "uploadWithRetry_loop svc f m (Suc a) (sleep (retryDelay svc * a) w1) = (res, w')"
          by (subst (asm) uploadWithRetry_loop.simps) simp
        have p2: "P (sleep (retryDelay svc * a) w1)"
          using slp [OF p1] .
        show ?thesis
          using "1.IH" [OF True fw [symmetric] Inl False rest p2 step slp]
          by simp
      qed
    qed
  qed
qed


lemma uploadWithRetry_3:
  assumes "maxRetries svc = 3"
  shows "uploadWithRetry svc f w =
    (case f w of
       (Inr r, w1) \<Rightarrow> (Inr (Some r), w1)
     | (Inl e1, w1) \<Rightarrow>
        (case f (sleep (retryDelay svc * 1) w1) of
           (Inr r, w2) \<Rightarrow> (Inr (Some r), w2)
         | (Inl e2, w2) \<Rightarrow>
            (case f (sleep (retryDelay svc * 2) w2) of
               (Inr r, w3) \<Rightarrow> (Inr (Some r), w3)
             | (Inl e3, w3) \<Rightarrow> (Inl e3, w3))))"
proof -
  have one: "\<And>v. uploadWithRetry_loop svc f 3 3 v =
      (case f v of (Inr r, w3) \<Rightarrow> (Inr (Some r), w3) | (Inl e3, w3) \<Rightarrow> (Inl e3, w3))"
    by (subst uploadWithRetry_loop.simps) (simp split: prod.splits sum.splits)
  have two: "\<And>v. uploadWithRetry_loop svc f 3 2 v =
      (case f v of (Inr r, w2) \<Rightarrow> (Inr (Some r), w2)
       | (Inl e2, w2) \<Rightarrow> uploadWithRetry_loop svc f 3 3 (sleep (retryDelay svc * 2) w2))"
    by (subst uploadWithRetry_loop.simps) (simp add: eval_nat_numeral split: prod.splits sum.splits)
  have three: "\<And>v. uploadWithRetry_loop svc f 3 1 v =
      (case f v of (Inr r, w1) \<Rightarrow> (Inr (Some r), w1)
       | (Inl e1, w1) \<Rightarrow> uploadWithRetry_loop svc f 3 2 (sleep (retryDelay svc * 1) w1))"
    by (subst uploadWithRetry_loop.simps) (simp add: eval_nat_numeral split: prod.splits sum.splits)
  show ?thesis
    unfolding uploadWithRetry_def assms three two one ..
qed

lemma uploadVideo_cases:
  assumes "bot svc" and "files w (Named p) = Some content"
    and "uploadVideo svc p w = (td, w')"
    and "f = (if maxFileSize svc < length content then uploadLargeVideoToChannel p
              else uploadToChannel svc p)"
  shows "\<exists>res. uploadWithRetry_loop svc f (maxRetries svc) 1 w = (res, w')
    \<and> (case res of Inl e \<Rightarrow> td = NotUploaded None (Some e)
        | Inr None \<Rightarrow> td = NotUploaded None None
        | Inr (Some r) \<Rightarrow> td = r)"
proof -
  obtain res v where r: "uploadWithRetry_loop svc f (maxRetries svc) 1 w = (res, v)"
    by (cases "uploadWithRetry_loop svc f (maxRetries svc) 1 w")
  from assms r have "w' = v \<and> (case res of Inl e \<Rightarrow> td = NotUploaded None (Some e)
        | Inr None \<Rightarrow> td = NotUploaded None None
        | Inr (Some r) \<Rightarrow> td = r)"
    by (auto simp: uploadVideo_def uploadLargeVideoWithRetry_def uploadSmallVideoWithRetry_def
        uploadWithRetry_def split: sum.splits option.splits if_splits)
  with r show ?thesis
    by auto
qed

lemma small_path_run:
  assumes "bot svc" and "files w (Named p) = Some content"
    and "length content \<le> maxFileSize svc"
    and "uploadVideo svc p w = (td, w')"
  shows "(\<exists>new. calls w' = calls w @ new \<and> set new \<subseteq> {SendVideo})
    \<and> (\<forall>n cs. td \<noteq> UploadedChunked n cs)"
proof -
  let ?f = "uploadToChannel svc p"
  let ?P = "\<lambda>v::world. files v (Named p) = Some content
      \<and> (\<exists>new. calls v = calls w @ new \<and> set new \<subseteq> {SendVideo})"
  from uploadVideo_cases [OF assms(1,2,4), of ?f] assms(3)
  obtain res where run: "uploadWithRetry_loop svc ?f (maxRetries svc) 1 w = (res, w')"
    and td: "case res of Inl e \<Rightarrow> td = NotUploaded None (Some e)
        | Inr None \<Rightarrow> td = NotUploaded None None
        | Inr (Some r) \<Rightarrow> td = r"
    by auto
  have p0: "?P w"
    using assms(2) by simp
  have step: "\<And>v r v'. ?P v \<Longrightarrow> ?f v = (r, v') \<Longrightarrow> ?P v'"
  proof -
    fix v r v'
    assume pv: "?P v" and fv: "?f v = (r, v')"
    from pv fv assms(3) have "uploadSmallVideoToChannel p v = (r, v')"
      by (simp add: uploadToChannel_def)
    from uploadSmallVideoToChannel_frame [OF this] pv show "?P v'"
      by auto
  qed
  have slp: "\<And>ms v. ?P v \<Longrightarrow> ?P (sleep ms v)"
    by (simp add: sleep_frame)
  have inv: "?P w' \<and> (\<forall>r. res = Inr (Some r) \<longrightarrow> (\<exists>v. ?P v \<and> ?f v = (Inr r, w')))"
  proof (rule uploadWithRetry_loop_inv [where P = ?P, OF run p0])
    fix v r v'
    assume "?P v" and "?f v = (r, v')"
    then show "?P v'" by (rule step)
  next
    fix ms v
    assume "?P v"
    then show "?P (sleep ms v)" by (rule slp)
  qed
  have "\<forall>n cs. td \<noteq> UploadedChunked n cs"
  proof (cases res)
    case (Inl e)
    with td show ?thesis by simp
  next
    case (Inr o1)
    show ?thesis
    proof (cases o1)
      case None
      with td Inr show ?thesis by simp
    next
      case (Some r)
      with inv Inr obtain v where "?P v" and fv: "?f v = (Inr r, w')"
        by blast
      with assms(3) have "uploadSmallVideoToChannel p v = (Inr r, w')"
        by (simp add: uploadToChannel_def)
      from uploadSmallVideoToChannel_frame [OF this] obtain m f s where "r = UploadedSingle m f s"
        by blast
      with td Inr Some show ?thesis by simp
    qed
  qed
  with inv show ?thesis
    by blast
qed

lemma large_path_run:
  assumes "bot svc" and "files w (Named p) = Some content"
    and "maxFileSize svc < length content"
    and "uploadVideo svc p w = (td, w')"
  shows "(\<exists>new. calls w' = calls w @ new \<and> set new \<subseteq> {SendDocument})
    \<and> (\<forall>m f s. td \<noteq> UploadedSingle m f s)
    \<and> (uploaded td \<longrightarrow> (\<exists>v. files v (Named p) = Some content \<and> prefix (objects w) (objects v)
          \<and> uploadLargeVideoToChannel p v = (Inr td, w')))"
proof -
  let ?f = "uploadLargeVideoToChannel p"
  let ?P = "\<lambda>v::world. files v (Named p) = Some content \<and> prefix (objects w) (objects v)
      \<and> (\<exists>new. calls v = calls w @ new \<and> set new \<subseteq> {SendDocument})"
  from uploadVideo_cases [OF assms(1,2,4), of ?f] assms(3)
  obtain res where run: "uploadWithRetry_loop svc ?f (maxRetries svc) 1 w = (res, w')"
    and td: "case res of Inl e \<Rightarrow> td = NotUploaded None (Some e)
        | Inr None \<Rightarrow> td = NotUploaded None None
        | Inr (Some r) \<Rightarrow> td = r"
    by auto
  have p0: "?P w"
    using assms(2) by simp
  have step: "\<And>v r v'. ?P v \<Longrightarrow> ?f v = (r, v') \<Longrightarrow> ?P v'"
  proof -
    fix v r v'
    assume pv: "?P v" and fv: "?f v = (r, v')"
    note fr = uploadLargeVideoToChannel_frame [OF fv, of p]
    from pv obtain new where n: "calls v = calls w @ new" "set new \<subseteq> {SendDocument}"
      by blast
    from fr obtain new' where n': "calls v' = calls v @ new'" "set new' \<subseteq> {SendDocument}"
      by blast
    from n n' have "calls v' = calls w @ (new @ new')" "set (new @ new') \<subseteq> {SendDocument}"
      by auto
    then have "\<exists>new. calls v' = calls w @ new \<and> set new \<subseteq> {SendDocument}"
      by blast
    moreover from pv fr have "files v' (Named p) = Some content"
      by simp
    moreover from pv fr have "prefix (objects w) (objects v')"
      by (auto intro: prefix_order.trans)
    ultimately show "?P v'"
      by simp
  qed
  have slp: "\<And>ms v. ?P v \<Longrightarrow> ?P (sleep ms v)"
    by (simp add: sleep_frame)
  have inv: "?P w' \<and> (\<forall>r. res = Inr (Some r) \<longrightarrow> (\<exists>v. ?P v \<and> ?f v = (Inr r, w')))"
  proof (rule uploadWithRetry_loop_inv [where P = ?P, OF run p0])
    fix v r v'
    assume "?P v" and "?f v = (r, v')"
    then show "?P v'" by (rule step)
  next
    fix ms v
    assume "?P v"
    then show "?P (sleep ms v)" by (rule slp)
  qed
  have a: "\<forall>m f s. td \<noteq> UploadedSingle m f s"
  proof (cases res)
    case (Inl e)
    with td show ?thesis by simp
  next
    case (Inr o1)
    show ?thesis
    proof (cases o1)
      case None
      with td Inr show ?thesis by simp
    next
      case (Some r)
      with inv Inr obtain v where pv: "?P v" and fv: "?f v = (Inr r, w')"
        by blast
      from uploadLargeVideoToChannel_ok [OF fv] pv obtain n cs where "r = UploadedChunked n cs"
        by blast
      with td Inr Some show ?thesis by simp
    qed
  qed
  have b: "uploaded td \<longrightarrow> (\<exists>v. files v (Named p) = Some content \<and> prefix (objects w) (objects v)
          \<and> uploadLargeVideoToChannel p v = (Inr td, w'))"
  proof
    assume u: "uploaded td"
    with td obtain r where "res = Inr (Some r)" "td = r"
      by (auto split: sum.splits option.splits)
    with inv show "\<exists>v. files v (Named p) = Some content \<and> prefix (objects w) (objects v)
          \<and> uploadLargeVideoToChannel p v = (Inr td, w')"
      by blast
  qed
  from inv a b show ?thesis
    by blast
qed

subsection \<open>Download and round trip\<close>

lemma getFileStream_ok:
  "getFileStream fid w = (Inr d, w') \<Longrightarrow>
     fid < length (objects w) \<and> d = objects w ! fid \<and> objects w' = objects w
     \<and> files w' = files w \<and> script w' = tl (script w)"
  by (auto simp: getFileStream_def split: option.splits if_splits)

lemma getFileStream_quiet:
  "set (script w) \<subseteq> {None} \<Longrightarrow> fid < length (objects w) \<Longrightarrow>
     getFileStream fid w = (Inr (objects w ! fid), w\<lparr>script := tl (script w)\<rparr>)"
  by (cases "script w") (auto simp: getFileStream_def next_outcome_def)

lemma quiet_tl: "set (script w) \<subseteq> {None} \<Longrightarrow> set (tl (script w)) \<subseteq> {None}"
  by (cases "script w") auto

lemma download_chunks_ok:
  "download_chunks chunks out w = (Inr (), w') \<Longrightarrow> files w out = Some old \<Longrightarrow>
     files w' out = Some (old @ concat (map (\<lambda>c. objects w ! chunk_fileId c) chunks))"
proof (induction chunks arbitrary: w old)
  case Nil
  then show ?case by simp
next
  case (Cons c chunks)
  obtain r1 w1 where g: "getFileStream (chunk_fileId c) w = (r1, w1)"
    by (cases "getFileStream (chunk_fileId c) w")
  show ?case
  proof (cases r1)
    case (Inl e)
    with Cons.prems g show ?thesis by simp
  next
    case (Inr d)
    note ok = getFileStream_ok [OF g [unfolded Inr]]
    let ?w2 = "append_file out d w1"
    from Cons.prems(1) g Inr have rest: "download_chunks chunks out ?w2 = (Inr (), w')"
      by simp
    from ok Cons.prems(2) have f2: "files ?w2 out = Some (old @ d)"
      by (simp add: append_file_def)
    have o2: "objects ?w2 = objects w"
      using ok by (simp add: append_file_def)
    from Cons.IH [OF rest f2] ok o2 show ?thesis
      by simp
  qed
qed

lemma download_chunks_quiet:
  "set (script w) \<subseteq> {None} \<Longrightarrow> \<forall>c \<in> set chunks. chunk_fileId c < length (objects w) \<Longrightarrow>
     \<exists>w'. download_chunks chunks out w = (Inr (), w')"
proof (induction chunks arbitrary: w)
  case Nil
  then show ?case by simp
next
  case (Cons c chunks)
  let ?d = "objects w ! chunk_fileId c"
  let ?w1 = "w\<lparr>script := tl (script w)\<rparr>"
  let ?w2 = "append_file out ?d ?w1"
  from Cons.prems have g: "getFileStream (chunk_fileId c) w = (Inr ?d, ?w1)"
    by (simp add: getFileStream_quiet)
  have q2: "set (script ?w2) \<subseteq> {None}"
    using quiet_tl [OF Cons.prems(1)] by (simp add: append_file_def)
  have o2: "\<forall>c \<in> set chunks. chunk_fileId c < length (objects ?w2)"
    using Cons.prems(2) by (simp add: append_file_def)
  from Cons.IH [OF q2 o2] g show ?case
    by simp
qed

lemma slice_length_le: "length (take cs (drop (j * cs) xs)) \<le> cs"
  by simp

lemma slice_length_full:
  assumes "0 < cs" and "Suc j < ceil_div (length xs) cs"
  shows "length (take cs (drop (j * cs) xs)) = cs"
proof -
  from assms have pos: "0 < length xs"
    by (cases "length xs = 0") (simp_all add: ceil_div_def)
  from assms(2) have "Suc j \<le> ceil_div (length xs) cs - 1"
    by simp
  then have "Suc j * cs \<le> (ceil_div (length xs) cs - 1) * cs"
    by (rule mult_le_mono1)
  also have "\<dots> < length xs"
    using ceil_div_tight [OF assms(1) pos] .
  finally have "j * cs + cs < length xs"
    by simp
  then show ?thesis
    by simp
qed

lemma map_nth_append_upt:
  "map (\<lambda>x. (xs @ ys) ! x) [length xs..<length xs + length ys] = ys"
  by (rule nth_equalityI) (simp_all add: nth_append)

lemma chunked_record_facts:
  assumes "uploadLargeVideoToChannel p v = (Inr td, w1)" and "files v (Named p) = Some content"
  shows "\<exists>chunks. td = UploadedChunked (length chunks) chunks
      \<and> length chunks = ceil_div (length content) 47185920
      \<and> map part chunks = [1..<Suc (length chunks)]
      \<and> (\<forall>c \<in> set chunks. chunk_fileId c < length (objects w1)
             \<and> chunk_size c = length (objects w1 ! chunk_fileId c)
             \<and> chunk_size c \<le> 47185920)
      \<and> (\<forall>k. Suc k < length chunks \<longrightarrow> chunk_size (chunks ! k) = 47185920)
      \<and> concat (map (\<lambda>c. objects w1 ! chunk_fileId c) chunks) = content"
proof -
  let ?n = "ceil_div (length content) 47185920"
  let ?slice = "\<lambda>j. take 47185920 (drop (j * 47185920) content)"
  let ?L = "length (objects v)"
  from uploadLargeVideoToChannel_ok [OF assms] obtain chunks
    where td: "td = UploadedChunked ?n chunks"
      and parts: "map part chunks = [1..<Suc ?n]"
      and ids: "map chunk_fileId chunks = [?L..<?L + ?n]"
      and sizes: "map chunk_size chunks = map (\<lambda>j. length (?slice j)) [0..<?n]"
      and objs: "objects w1 = objects v @ map ?slice [0..<?n]"
    by blast
  from parts have len: "length chunks = ?n"
    by (metis length_map length_upt diff_Suc_1)
  have at: "\<And>k. k < ?n \<Longrightarrow> chunk_fileId (chunks ! k) = ?L + k
      \<and> chunk_size (chunks ! k) = length (?slice k) \<and> objects w1 ! (?L + k) = ?slice k"
  proof -
    fix k assume k: "k < ?n"
    have "chunk_fileId (chunks ! k) = map chunk_fileId chunks ! k"
      using k len by simp
    also have "\<dots> = ?L + k"
      using k by (simp add: ids)
    finally have a: "chunk_fileId (chunks ! k) = ?L + k" .
    have "chunk_size (chunks ! k) = map chunk_size chunks ! k"
      using k len by simp
    also have "\<dots> = length (?slice k)"
      using k by (simp add: sizes)
    finally have b: "chunk_size (chunks ! k) = length (?slice k)" .
    have c: "objects w1 ! (?L + k) = ?slice k"
      using k by (simp add: objs nth_append)
    from a b c show "chunk_fileId (chunks ! k) = ?L + k
      \<and> chunk_size (chunks ! k) = length (?slice k) \<and> objects w1 ! (?L + k) = ?slice k"
      by simp
  qed
  have each: "\<forall>c \<in> set chunks. chunk_fileId c < length (objects w1)
             \<and> chunk_size c = length (objects w1 ! chunk_fileId c)
             \<and> chunk_size c \<le> 47185920"
  proof
    fix c assume "c \<in> set chunks"
    then obtain k where k: "k < ?n" and c: "c = chunks ! k"
      using len by (metis in_set_conv_nth)
    from at [OF k] k c show "chunk_fileId c < length (objects w1)
             \<and> chunk_size c = length (objects w1 ! chunk_fileId c)
             \<and> chunk_size c \<le> 47185920"
      by (simp add: objs)
  qed
  have full: "\<forall>k. Suc k < length chunks \<longrightarrow> chunk_size (chunks ! k) = 47185920"
  proof (intro allI impI)
    fix k assume k: "Suc k < length chunks"
    then have "k < ?n" using len by simp
    from at [OF this] have "chunk_size (chunks ! k) = length (?slice k)"
      by simp
    also have "\<dots> = 47185920"
      using k len by (intro slice_length_full) simp_all
    finally show "chunk_size (chunks ! k) = 47185920" .
  qed
  have "concat (map (\<lambda>c. objects w1 ! chunk_fileId c) chunks)
      = concat (map (\<lambda>x. objects w1 ! x) (map chunk_fileId chunks))"
    by (simp add: comp_def)
  also have "map (\<lambda>x. objects w1 ! x) (map chunk_fileId chunks) = map ?slice [0..<?n]"
    unfolding ids objs using map_nth_append_upt [of "objects v" "map ?slice [0..<?n]"]
    by simp
  also have "concat (map ?slice [0..<?n]) = content"
    by (rule concat_slices_all) simp
  finally have cat: "concat (map (\<lambda>c. objects w1 ! chunk_fileId c) chunks) = content" .
  from td len parts each full cat show ?thesis
    by auto
qed

lemma download_after_upload:
  assumes "\<forall>c \<in> set chunks. chunk_fileId c < length (objects w1)"
    and "concat (map (\<lambda>c. objects w1 ! chunk_fileId c) chunks) = content"
    and "prefix (objects w1) (objects w2)"
  shows "(\<forall>w3. downloadChunkedVideo (UploadedChunked n chunks) out w2 = (Inr (), w3)
            \<longrightarrow> files w3 (Named out) = Some content)
     \<and> (set (script w2) \<subseteq> {None}
            \<longrightarrow> (\<exists>w3. downloadChunkedVideo (UploadedChunked n chunks) out w2 = (Inr (), w3)))"
proof -
  let ?w = "w2\<lparr>files := (files w2)(Named out \<mapsto> [])\<rparr>"
  have dl: "downloadChunkedVideo (UploadedChunked n chunks) out w2 = download_chunks chunks (Named out) ?w"
    by (simp add: downloadChunkedVideo_def)
  from assms(3) obtain zs where zs: "objects w2 = objects w1 @ zs"
    by (auto simp: prefix_def)
  have same: "map (\<lambda>c. objects w2 ! chunk_fileId c) chunks = map (\<lambda>c. objects w1 ! chunk_fileId c) chunks"
    using assms(1) by (intro map_cong) (simp_all add: zs nth_append)
  have a: "\<forall>w3. downloadChunkedVideo (UploadedChunked n chunks) out w2 = (Inr (), w3)
            \<longrightarrow> files w3 (Named out) = Some content"
  proof (intro allI impI)
    fix w3 assume "downloadChunkedVideo (UploadedChunked n chunks) out w2 = (Inr (), w3)"
    then have d: "download_chunks chunks (Named out) ?w = (Inr (), w3)"
      by (simp add: dl)
    have f: "files ?w (Named out) = Some []"
      by simp
    from download_chunks_ok [OF d f]
    have "files w3 (Named out) = Some (concat (map (\<lambda>c. objects w2 ! chunk_fileId c) chunks))"
      by simp
    then show "files w3 (Named out) = Some content"
      unfolding same assms(2) .
  qed
  have b: "set (script w2) \<subseteq> {None}
            \<longrightarrow> (\<exists>w3. downloadChunkedVideo (UploadedChunked n chunks) out w2 = (Inr (), w3))"
  proof
    assume q: "set (script w2) \<subseteq> {None}"
    then have q': "set (script ?w) \<subseteq> {None}"
      by simp
    have v: "\<forall>c \<in> set chunks. chunk_fileId c < length (objects ?w)"
      using assms(1) by (auto simp: zs)
    from download_chunks_quiet [OF q' v] show "\<exists>w3. downloadChunkedVideo (UploadedChunked n chunks) out w2 = (Inr (), w3)"
      by (simp add: dl)
  qed
  from a b show ?thesis ..
qed

lemma uploadToChannel_slept:
  assumes "uploadToChannel svc p v = (r, v')"
  shows "slept v' = slept v"
proof (cases "files v (Named p)")
  case None
  with assms show ?thesis
    by (simp add: uploadToChannel_def)
next
  case (Some content)
  show ?thesis
  proof (cases "maxFileSize svc < length content")
    case True
    with assms Some have "uploadLargeVideoToChannel p v = (r, v')"
      by (simp add: uploadToChannel_def)
    from uploadLargeVideoToChannel_frame [OF this, of p] show ?thesis
      by simp
  next
    case False
    with assms Some have "uploadSmallVideoToChannel p v = (r, v')"
      by (simp add: uploadToChannel_def)
    from uploadSmallVideoToChannel_frame [OF this] show ?thesis
      by simp
  qed
qed

subsection \<open>Attempts of the retry loop\<close>

lemma uploadWithRetry_loop_cong:
  assumes "P w"
    and "\<And>v. P v \<Longrightarrow> f v = g v"
    and "\<And>v r v'. P v \<Longrightarrow> f v = (r, v') \<Longrightarrow> P v'"
    and "\<And>ms v. P v \<Longrightarrow> P (sleep ms v)"
  shows "uploadWithRetry_loop svc f m a w = uploadWithRetry_loop svc g m a w"
  using assms
proof (induction svc f m a w rule: uploadWithRetry_loop.induct)
  case (1 svc f m a w)
  note pw = "1.prems"(1) and eq = "1.prems"(2) and step = "1.prems"(3) and slp = "1.prems"(4)
  show ?case
  proof (cases "a \<le> m")
    case False
    have "uploadWithRetry_loop svc f m a w = (Inr None, w)"
      using False by (subst uploadWithRetry_loop.simps) simp
    moreover have "uploadWithRetry_loop svc g m a w = (Inr None, w)"
      using False by (subst uploadWithRetry_loop.simps) simp
    ultimately show ?thesis
      by simp
  next
    case True
    obtain r1 w1 where fw: "f w = (r1, w1)"
      by (cases "f w")
    with eq [OF pw] have gw: "g w = (r1, w1)"
      by simp
    have p1: "P w1"
      using step [OF pw fw] .
    show ?thesis
    proof (cases r1)
      case (Inr r)
      have "uploadWithRetry_loop svc f m a w = (Inr (Some r), w1)"
        using True fw Inr by (subst uploadWithRetry_loop.simps) simp
      moreover have "uploadWithRetry_loop svc g m a w = (Inr (Some r), w1)"
        using True gw Inr by (subst uploadWithRetry_loop.simps) simp
      ultimately show ?thesis
        by simp
    next
      case (Inl e)
      show ?thesis
      proof (cases "a = m")
        case True
        have "uploadWithRetry_loop svc f m a w = (Inl e, w1)"
          using True fw Inl by (subst uploadWithRetry_loop.simps) simp
        moreover have "uploadWithRetry_loop svc g m a w = (Inl e, w1)"
          using True gw Inl by (subst uploadWithRetry_loop.simps) simp
        ultimately show ?thesis
          by simp
      next
        case False
        let ?w2 = "sleep (retryDelay svc * a) w1"
        have l: "uploadWithRetry_loop svc f m a w = uploadWithRetry_loop svc f m (Suc a) ?w2"
          using True False fw Inl by (subst uploadWithRetry_loop.simps) simp
        have r: "uploadWithRetry_loop svc g m a w = uploadWithRetry_loop svc g m (Suc a) ?w2"
          using True False gw Inl by (subst uploadWithRetry_loop.simps) simp
        have p2: "P ?w2"
          using slp [OF p1] .
        have "uploadWithRetry_loop svc f m (Suc a) ?w2 = uploadWithRetry_loop svc g m (Suc a) ?w2"
          using "1.IH" [OF True fw [symmetric] Inl False p2 eq step slp] .
        with l r show ?thesis
          by simp
      qed
    qed
  qed
qed

lemma uploadWithRetry_loop_calls:
  assumes "uploadWithRetry_loop svc f m a w = (res, w')"
    and "\<forall>v r v'. f v = (r, v') \<longrightarrow> calls v' = calls v @ [api]"
  shows "\<exists>k. calls w' = calls w @ replicate k api \<and> k \<le> Suc m - a \<and> (a \<le> m \<longrightarrow> 0 < k)"
  using assms
proof (induction svc f m a w rule: uploadWithRetry_loop.induct)
  case (1 svc f m a w)
  note run = "1.prems"(1) and one = "1.prems"(2)
  show ?case
  proof (cases "a \<le> m")
    case False
    with run have "w' = w"
      by (subst (asm) uploadWithRetry_loop.simps) simp
    with False show ?thesis
      by simp
  next
    case True
    obtain r1 w1 where fw: "f w = (r1, w1)"
      by (cases "f w")
    have c1: "calls w1 = calls w @ [api]"
      using one fw by blast
    have stop: "w' = w1 \<Longrightarrow> ?thesis"
    proof -
      assume "w' = w1"
      with c1 True have "calls w' = calls w @ replicate 1 api \<and> 1 \<le> Suc m - a \<and> (a \<le> m \<longrightarrow> 0 < (1::nat))"
        by simp
      then show ?thesis
        by blast
    qed
    show ?thesis
    proof (cases r1)
      case (Inr r)
      with run True fw have "w' = w1"
        by (subst (asm) uploadWithRetry_loop.simps) simp
      then show ?thesis
        by (rule stop)
    next
      case (Inl e)
      show ?thesis
      proof (cases "a = m")
        case True
        with run fw Inl have "w' = w1"
          by (subst (asm) uploadWithRetry_loop.simps) simp
        then show ?thesis
          by (rule stop)
      next
        case False
        let ?w2 = "sleep (retryDelay svc * a) w1"
        from run True False fw Inl
        have rest: "uploadWithRetry_loop svc f m (Suc a) ?w2 = (res, w')"
          by (subst (asm) uploadWithRetry_loop.simps) simp
        from "1.IH" [OF True fw [symmetric] Inl False rest one]
        obtain k where k: "calls w' = calls ?w2 @ replicate k api" "k \<le> Suc m - Suc a"
          by blast
        from k c1 True False
        have "calls w' = calls w @ replicate (Suc k) api \<and> Suc k \<le> Suc m - a \<and> (a \<le> m \<longrightarrow> 0 < Suc k)"
          by (simp add: sleep_def replicate_app_Cons_same)
        then show ?thesis
          by blast
      qed
    qed
  qed
qed

lemma quiet_next_outcome: "set (script w) \<subseteq> {None} \<Longrightarrow> next_outcome w = None"
  by (cases "script w") (auto simp: next_outcome_def)

lemma sendFile_quiet:
  assumes "next_outcome w = None" and "files w p = Some d"
  shows "sendFile api p w =
    (Inr \<lparr>message_id = length (objects w), file_id = length (objects w), file_size = length d\<rparr>,
     w\<lparr>objects := objects w @ [d], script := tl (script w), calls := calls w @ [api]\<rparr>)"
  using assms by (simp add: sendFile_def bot_send_def)

lemma upload_chunks_quiet:
  "set (script w) \<subseteq> {None} \<Longrightarrow> distinct ps \<Longrightarrow> \<forall>p \<in> set ps. files w p \<noteq> None \<Longrightarrow>
     \<exists>ucs w'. upload_chunks ps i acc w = (Inr ucs, w')
       \<and> calls w' = calls w @ replicate (length ps) SendDocument
       \<and> set (script w') \<subseteq> {None}"
proof (induction ps arbitrary: i acc w)
  case Nil
  then show ?case by simp
next
  case (Cons p ps)
  from Cons.prems(3) obtain d where fp: "files w p = Some d"
    by auto
  let ?m = "\<lparr>message_id = length (objects w), file_id = length (objects w), file_size = length d\<rparr>"
  let ?w1 = "w\<lparr>objects := objects w @ [d], script := tl (script w), calls := calls w @ [SendDocument]\<rparr>"
  let ?w2 = "?w1\<lparr>files := (files ?w1)(p := None)\<rparr>"
  let ?acc = "acc @ [\<lparr>part = i + 1, chunk_messageId = message_id ?m,
                 chunk_fileId = file_id ?m, chunk_size = file_size ?m\<rparr>]"
  have s: "sendFile SendDocument p w = (Inr ?m, ?w1)"
    using sendFile_quiet [OF quiet_next_outcome [OF Cons.prems(1)] fp] .
  have q2: "set (script ?w2) \<subseteq> {None}"
    using quiet_tl [OF Cons.prems(1)] by simp
  from Cons.prems(2) have dist: "distinct ps" and pn: "p \<notin> set ps"
    by auto
  have f2: "\<forall>q \<in> set ps. files ?w2 q \<noteq> None"
    using Cons.prems(3) pn by auto
  from Cons.IH [OF q2 dist f2, of "Suc i" ?acc]
  obtain ucs w' where r: "upload_chunks ps (Suc i) ?acc ?w2 = (Inr ucs, w')"
    and c: "calls w' = calls ?w2 @ replicate (length ps) SendDocument"
    and q: "set (script w') \<subseteq> {None}"
    by blast
  have "upload_chunks (p # ps) i acc w = (Inr ucs, w')"
    using s r by simp
  moreover have "calls w' = calls w @ replicate (length (p # ps)) SendDocument"
    using c by simp
  ultimately show ?case
    using q by blast
qed

lemma uploadLargeVideoToChannel_quiet:
  assumes "files w (Named p) = Some content" and "set (script w) \<subseteq> {None}"
  shows "\<exists>td w'. uploadLargeVideoToChannel p w = (Inr td, w')
     \<and> calls w' = calls w @ replicate (ceil_div (length content) 47185920) SendDocument
     \<and> set (script w') \<subseteq> {None}"
proof -
  let ?n = "ceil_div (length content) 47185920"
  let ?ps = "map TempChunk [0..<?n]"
  from splitVideoFile_ok [OF assms(1), of 47185920]
  obtain w1 where sp: "splitVideoFile p 47185920 w = (Inr ?ps, w1)"
    and fr: "script w1 = script w" "calls w1 = calls w"
    and fs: "\<forall>j < ?n. files w1 (TempChunk j) = Some (take 47185920 (drop (j * 47185920) content))"
    by auto
  have q1: "set (script w1) \<subseteq> {None}"
    using assms(2) fr by simp
  have d: "distinct ?ps"
    by (simp add: distinct_map inj_on_def)
  have f: "\<forall>q \<in> set ?ps. files w1 q \<noteq> None"
    using fs by auto
  from upload_chunks_quiet [OF q1 d f, of 0 "[]"]
  obtain ucs w' where up: "upload_chunks ?ps 0 [] w1 = (Inr ucs, w')"
    and c: "calls w' = calls w1 @ replicate (length ?ps) SendDocument"
    and q: "set (script w') \<subseteq> {None}"
    by blast
  have "uploadLargeVideoToChannel p w = (Inr (UploadedChunked (length ?ps) ucs), w')"
    using sp up by (simp add: uploadLargeVideoToChannel_def)
  with c q fr show ?thesis
    by simp
qed

lemma uploadWithRetry_first:
  assumes "0 < maxRetries svc" and "f w = (Inr r, w')"
  shows "uploadWithRetry svc f w = (Inr (Some r), w')"
  unfolding uploadWithRetry_def using assms
  by (subst uploadWithRetry_loop.simps) simp

lemma uploadVideo_small_eq:
  assumes "bot svc" and "files w (Named p) = Some content"
    and "length content \<le> maxFileSize svc"
  shows "uploadVideo svc p w =
      (case uploadWithRetry svc (uploadSmallVideoToChannel p) w of
         (Inl e, v) \<Rightarrow> (NotUploaded None (Some e), v)
       | (Inr None, v) \<Rightarrow> (NotUploaded None None, v)
       | (Inr (Some r), v) \<Rightarrow> (r, v))"
proof -
  let ?P = "\<lambda>v::world. files v (Named p) = Some content"
  have eq: "\<And>v. ?P v \<Longrightarrow> uploadToChannel svc p v = uploadSmallVideoToChannel p v"
    using assms(3) by (simp add: uploadToChannel_def)
  have step: "\<And>v r v'. ?P v \<Longrightarrow> uploadToChannel svc p v = (r, v') \<Longrightarrow> ?P v'"
  proof -
    fix v r v'
    assume pv: "?P v" and fv: "uploadToChannel svc p v = (r, v')"
    then have "uploadSmallVideoToChannel p v = (r, v')"
      by (simp add: eq)
    from uploadSmallVideoToChannel_frame [OF this] pv show "?P v'"
      by simp
  qed
  have slp: "\<And>ms v. ?P v \<Longrightarrow> ?P (sleep ms v)"
    by (simp add: sleep_frame)
  have "uploadWithRetry_loop svc (uploadToChannel svc p) (maxRetries svc) 1 w
      = uploadWithRetry_loop svc (uploadSmallVideoToChannel p) (maxRetries svc) 1 w"
  proof (rule uploadWithRetry_loop_cong [where P = ?P])
    show "?P w" by (rule assms(2))
  next
    fix v assume "?P v"
    then show "uploadToChannel svc p v = uploadSmallVideoToChannel p v" by (rule eq)
  next
    fix v r v' assume "?P v" and "uploadToChannel svc p v = (r, v')"
    then show "?P v'" by (rule step)
  next
    fix ms v assume "?P v"
    then show "?P (sleep ms v)" by (rule slp)
  qed
  then have "uploadSmallVideoWithRetry svc p w = uploadWithRetry svc (uploadSmallVideoToChannel p) w"
    by (simp add: uploadSmallVideoWithRetry_def uploadWithRetry_def)
  with assms show ?thesis
    by (simp add: uploadVideo_def)
qed

lemma uploadVideo_large_eq:
  assumes "bot svc" and "files w (Named p) = Some content"
    and "maxFileSize svc < length content"
  shows "uploadVideo svc p w =
      (case uploadWithRetry svc (uploadLargeVideoToChannel p) w of
         (Inl e, v) \<Rightarrow> (NotUploaded None (Some e), v)
       | (Inr None, v) \<Rightarrow> (NotUploaded None None, v)
       | (Inr (Some r), v) \<Rightarrow> (r, v))"
  using assms by (simp add: uploadVideo_def uploadLargeVideoWithRetry_def)

lemma small_path_calls:
  assumes "bot svc" and "files w (Named p) = Some content"
    and "length content \<le> maxFileSize svc"
    and "uploadVideo svc p w = (td, w')"
  shows "\<exists>k. calls w' = calls w @ replicate k SendVideo \<and> k \<le> maxRetries svc
           \<and> (0 < maxRetries svc \<longrightarrow> 0 < k)"
proof -
  let ?g = "uploadSmallVideoToChannel p"
  obtain res v where run: "uploadWithRetry_loop svc ?g (maxRetries svc) 1 w = (res, v)"
    by (cases "uploadWithRetry_loop svc ?g (maxRetries svc) 1 w")
  with assms(4) have "w' = v"
    unfolding uploadVideo_small_eq [OF assms(1-3)] uploadWithRetry_def
    by (auto split: sum.splits option.splits)
  with run have run': "uploadWithRetry_loop svc ?g (maxRetries svc) 1 w = (res, w')"
    by simp
  have one: "\<forall>v r v'. ?g v = (r, v') \<longrightarrow> calls v' = calls v @ [SendVideo]"
    using uploadSmallVideoToChannel_frame by blast
  from uploadWithRetry_loop_calls [OF run' one] show ?thesis
    by auto
qed

lemma small_path_first:
  assumes "bot svc" and "files w (Named p) = Some content"
    and "length content \<le> maxFileSize svc"
    and "0 < maxRetries svc" and "next_outcome w = None"
  shows "uploadVideo svc p w =
     (UploadedSingle (length (objects w)) (length (objects w)) (length content),
      w\<lparr>objects := objects w @ [content], script := tl (script w),
        calls := calls w @ [SendVideo]\<rparr>)"
proof -
  have "uploadSmallVideoToChannel p w =
     (Inr (UploadedSingle (length (objects w)) (length (objects w)) (length content)),
      w\<lparr>objects := objects w @ [content], script := tl (script w),
        calls := calls w @ [SendVideo]\<rparr>)"
    by (simp add: uploadSmallVideoToChannel_def sendFile_quiet [OF assms(5,2)])
  from uploadWithRetry_first [where f = "uploadSmallVideoToChannel p" and w = w, OF assms(4) this] show ?thesis
    unfolding uploadVideo_small_eq [OF assms(1-3)] by simp
qed

lemma small_path_single:
  assumes "bot svc" and "files w (Named p) = Some content"
    and "length content \<le> maxFileSize svc"
    and "uploadVideo svc p w = (td, w')" and "uploaded td"
  shows "\<exists>m. td = UploadedSingle m m (length content) \<and> m < length (objects w')
           \<and> objects w' ! m = content"
proof -
  let ?g = "uploadSmallVideoToChannel p"
  let ?P = "\<lambda>v::world. files v (Named p) = Some content"
  obtain res v where run: "uploadWithRetry_loop svc ?g (maxRetries svc) 1 w = (res, v)"
    by (cases "uploadWithRetry_loop svc ?g (maxRetries svc) 1 w")
  with assms(4,5) have wv: "w' = v" and res: "res = Inr (Some td)"
    unfolding uploadVideo_small_eq [OF assms(1-3)] uploadWithRetry_def
    by (auto split: sum.splits option.splits)
  from run wv have run': "uploadWithRetry_loop svc ?g (maxRetries svc) 1 w = (res, w')"
    by simp
  have inv: "?P w' \<and> (\<forall>r. res = Inr (Some r) \<longrightarrow> (\<exists>v. ?P v \<and> ?g v = (Inr r, w')))"
  proof (rule uploadWithRetry_loop_inv [where P = ?P, OF run' assms(2)])
    fix v r v'
    assume pv: "?P v" and "?g v = (r, v')"
    from uploadSmallVideoToChannel_frame [OF this(2)] pv show "?P v'"
      by simp
  next
    fix ms v
    assume "?P v"
    then show "?P (sleep ms v)" by (simp add: sleep_frame)
  qed
  with res obtain u where pu: "?P u" and gu: "?g u = (Inr td, w')"
    by blast
  from gu obtain m where s: "sendFile SendVideo (Named p) u = (Inr m, w')"
    and td: "td = UploadedSingle (message_id m) (file_id m) (file_size m)"
    by (auto simp: uploadSmallVideoToChannel_def split: sum.splits prod.splits)
  from sendFile_ok [OF s] pu
  have "objects w' = objects u @ [content]" "file_id m = length (objects u)"
    "message_id m = length (objects u)" "file_size m = length content"
    by auto
  with td show ?thesis
    by simp
qed

lemma large_path_first:
  assumes "bot svc" and "files w (Named p) = Some content"
    and "maxFileSize svc < length content"
    and "0 < maxRetries svc" and "set (script w) \<subseteq> {None}"
    and "uploadVideo svc p w = (td, w')"
  shows "uploadLargeVideoToChannel p w = (Inr td, w')
     \<and> (\<exists>chunks. td = UploadedChunked (ceil_div (length content) 47185920) chunks)
     \<and> calls w' = calls w @ replicate (ceil_div (length content) 47185920) SendDocument
     \<and> set (script w') \<subseteq> {None}"
proof -
  from uploadLargeVideoToChannel_quiet [OF assms(2,5)]
  obtain td1 w1 where up: "uploadLargeVideoToChannel p w = (Inr td1, w1)"
    and c: "calls w1 = calls w @ replicate (ceil_div (length content) 47185920) SendDocument"
    and q: "set (script w1) \<subseteq> {None}"
    by blast
  from uploadWithRetry_first [where f = "uploadLargeVideoToChannel p" and w = w, OF assms(4) up] assms(6)
  have "td = td1" "w' = w1"
    unfolding uploadVideo_large_eq [OF assms(1-3)] by simp_all
  with up c q uploadLargeVideoToChannel_ok [OF up assms(2)] show ?thesis
    by auto
qed

lemmas telegram_eval =
  uploadVideo_def uploadLargeVideoWithRetry_def uploadSmallVideoWithRetry_def uploadWithRetry_def
  uploadWithRetry_loop.simps uploadToChannel_def uploadLargeVideoToChannel_def
  uploadSmallVideoToChannel_def splitVideoFile_def split_loop.simps ceil_div_def sendFile_def
  bot_send_def next_outcome_def sleep_def new_TelegramService_def Let_def
  downloadChunkedVideo_def getFileStream_def append_file_def

text \<open>
  An upload that no other upload overlaps. A file larger than the per-object limit is
  uploaded as a chunked record when no bot call fails. An uploaded record has its parts
  numbered 1, 2, ... in upload order, every part is at most 45 MB (the chunk size) and all
  but the last are exactly that, and the stored parts concatenated in that order are the
  file. Downloading the record writes the file's bytes to the destination whenever it
  completes, and it completes when no bot call fails.
\<close>

lemma isolated_upload_roundtrip:
  assumes "bot svc" and "files w (Named p) = Some content"
    and "maxFileSize svc < length content"
    and "uploadVideo svc p w = (td, w1)"
  shows "(0 < maxRetries svc \<and> set (script w) \<subseteq> {None} \<longrightarrow>
            uploaded td \<and> set (script w1) \<subseteq> {None})
     \<and> (uploaded td \<longrightarrow>
          (\<exists>chunks. td = UploadedChunked (length chunks) chunks
            \<and> length chunks = ceil_div (length content) (45 * 1024 * 1024)
            \<and> map part chunks = [1..<Suc (length chunks)]
            \<and> (\<forall>c \<in> set chunks. chunk_fileId c < length (objects w1)
                   \<and> chunk_size c = length (objects w1 ! chunk_fileId c)
                   \<and> chunk_size c \<le> 45 * 1024 * 1024)
            \<and> (\<forall>k. Suc k < length chunks \<longrightarrow> chunk_size (chunks ! k) = 45 * 1024 * 1024)
            \<and> concat (map (\<lambda>c. objects w1 ! chunk_fileId c) chunks) = content
            \<and> (\<forall>w2 out. prefix (objects w1) (objects w2) \<longrightarrow>
                  (\<forall>w3. downloadChunkedVideo td out w2 = (Inr (), w3)
                      \<longrightarrow> files w3 (Named out) = Some content)
                \<and> (set (script w2) \<subseteq> {None}
                      \<longrightarrow> (\<exists>w3. downloadChunkedVideo td out w2 = (Inr (), w3))))))"
proof (intro conjI impI)
  assume q: "0 < maxRetries svc \<and> set (script w) \<subseteq> {None}"
  then have m: "0 < maxRetries svc" and s: "set (script w) \<subseteq> {None}"
    by simp_all
  from large_path_first [OF assms(1-3) m s assms(4)]
  show "uploaded td" and "set (script w1) \<subseteq> {None}"
    by auto
next
  assume u: "uploaded td"
  have cs: "(45::nat) * 1024 * 1024 = 47185920"
    by simp
  from large_path_run [OF assms(1-4)] u
  obtain v where fv: "files v (Named p) = Some content"
    and up: "uploadLargeVideoToChannel p v = (Inr td, w1)"
    by blast
  from chunked_record_facts [OF up fv] obtain chunks
    where td: "td = UploadedChunked (length chunks) chunks"
      and len: "length chunks = ceil_div (length content) 47185920"
      and parts: "map part chunks = [1..<Suc (length chunks)]"
      and each: "\<forall>c \<in> set chunks. chunk_fileId c < length (objects w1)
             \<and> chunk_size c = length (objects w1 ! chunk_fileId c)
             \<and> chunk_size c \<le> 47185920"
      and full: "\<forall>k. Suc k < length chunks \<longrightarrow> chunk_size (chunks ! k) = 47185920"
      and cat: "concat (map (\<lambda>c. objects w1 ! chunk_fileId c) chunks) = content"
    by blast
  from each have ids: "\<forall>c \<in> set chunks. chunk_fileId c < length (objects w1)"
    by simp
  have dl: "\<forall>w2 out. prefix (objects w1) (objects w2) \<longrightarrow>
            (\<forall>w3. downloadChunkedVideo td out w2 = (Inr (), w3)
                \<longrightarrow> files w3 (Named out) = Some content)
          \<and> (set (script w2) \<subseteq> {None}
                \<longrightarrow> (\<exists>w3. downloadChunkedVideo td out w2 = (Inr (), w3)))"
    unfolding td using download_after_upload [OF ids cat] by blast
  show "\<exists>chunks. td = UploadedChunked (length chunks) chunks
            \<and> length chunks = ceil_div (length content) (45 * 1024 * 1024)
            \<and> map part chunks = [1..<Suc (length chunks)]
            \<and> (\<forall>c \<in> set chunks. chunk_fileId c < length (objects w1)
                   \<and> chunk_size c = length (objects w1 ! chunk_fileId c)
                   \<and> chunk_size c \<le> 45 * 1024 * 1024)
            \<and> (\<forall>k. Suc k < length chunks \<longrightarrow> chunk_size (chunks ! k) = 45 * 1024 * 1024)
            \<and> concat (map (\<lambda>c. objects w1 ! chunk_fileId c) chunks) = content
            \<and> (\<forall>w2 out. prefix (objects w1) (objects w2) \<longrightarrow>
                  (\<forall>w3. downloadChunkedVideo td out w2 = (Inr (), w3)
                      \<longrightarrow> files w3 (Named out) = Some content)
                \<and> (set (script w2) \<subseteq> {None}
                      \<longrightarrow> (\<exists>w3. downloadChunkedVideo td out w2 = (Inr (), w3))))"
    unfolding cs using td len parts each full cat dl by blast
qed

lemma isolated_upload_three_parts:
  "\<exists>chunks w3.
      fst (uploadVideo (new_TelegramService True) ''v.mp4'' (ex_world (replicate 100000000 7) []))
        = UploadedChunked 3 chunks
    \<and> map part chunks = [1, 2, 3]
    \<and> (\<forall>c \<in> set chunks. chunk_size c \<le> 45 * 1024 * 1024)
    \<and> chunk_size (chunks ! 0) = 45 * 1024 * 1024 \<and> chunk_size (chunks ! 1) = 45 * 1024 * 1024
    \<and> downloadChunkedVideo (UploadedChunked 3 chunks) ''out.mp4''
         (snd (uploadVideo (new_TelegramService True) ''v.mp4'' (ex_world (replicate 100000000 7) [])))
        = (Inr (), w3)
    \<and> files w3 (Named ''out.mp4'') = Some (replicate 100000000 7)"
proof -
  let ?svc = "new_TelegramService True"
  let ?c = "replicate 100000000 (7 :: 8 word)"
  let ?w = "ex_world ?c []"
  let ?run = "uploadVideo ?svc ''v.mp4'' ?w"
  have h1: "bot ?svc"
    by (simp add: new_TelegramService_def)
  have h2: "files ?w (Named ''v.mp4'') = Some ?c"
    by (simp add: ex_world_def)
  have h3: "maxFileSize ?svc < length ?c"
    by (simp add: new_TelegramService_def)
  have h4: "?run = (fst ?run, snd ?run)"
    by simp
  have q: "0 < maxRetries ?svc \<and> set (script ?w) \<subseteq> {None}"
    by (simp add: new_TelegramService_def ex_world_def)
  have n: "ceil_div (length ?c) (45 * 1024 * 1024) = 3"
    by (simp add: ceil_div_def)
  note r = isolated_upload_roundtrip [OF h1 h2 h3 h4]
  from r q have u: "uploaded (fst ?run)" and qs: "set (script (snd ?run)) \<subseteq> {None}"
    by blast+
  from r u obtain chunks where td: "fst ?run = UploadedChunked (length chunks) chunks"
    and len: "length chunks = ceil_div (length ?c) (45 * 1024 * 1024)"
    and parts: "map part chunks = [1..<Suc (length chunks)]"
    and each: "\<forall>c \<in> set chunks. chunk_fileId c < length (objects (snd ?run))
                   \<and> chunk_size c = length (objects (snd ?run) ! chunk_fileId c)
                   \<and> chunk_size c \<le> 45 * 1024 * 1024"
    and full: "\<forall>k. Suc k < length chunks \<longrightarrow> chunk_size (chunks ! k) = 45 * 1024 * 1024"
    and dl: "\<forall>w2 out. prefix (objects (snd ?run)) (objects w2) \<longrightarrow>
                  (\<forall>w3. downloadChunkedVideo (fst ?run) out w2 = (Inr (), w3)
                      \<longrightarrow> files w3 (Named out) = Some ?c)
                \<and> (set (script w2) \<subseteq> {None}
                      \<longrightarrow> (\<exists>w3. downloadChunkedVideo (fst ?run) out w2 = (Inr (), w3)))"
    by blast
  from len n have l3: "length chunks = 3"
    by simp
  from dl qs obtain w3 where d: "downloadChunkedVideo (fst ?run) ''out.mp4'' (snd ?run) = (Inr (), w3)"
    by blast
  with dl have f: "files w3 (Named ''out.mp4'') = Some ?c"
    by blast
  have p: "map part chunks = [1, 2, 3]"
    using parts l3 by (simp add: upt_conv_Cons del: upt_Suc)
  have s: "\<forall>c \<in> set chunks. chunk_size c \<le> 45 * 1024 * 1024"
    using each by blast
  have f0: "chunk_size (chunks ! 0) = 45 * 1024 * 1024" and f1: "chunk_size (chunks ! 1) = 45 * 1024 * 1024"
    using full l3 by simp_all
  from td l3 p s f0 f1 d f show ?thesis
    by auto
qed

subsection \<open>Uploads that overlap\<close>

text \<open>
  A task that runs alone is the upload described by \<^verbatim>\<open>uploadVideo\<close>: it returns after
  finitely many steps, with the same result and the same world.
\<close>

lemma run_tasks_alone:
  "run_tasks svc (replicate n 0) [t] w = (case task_steps svc n t w of (t', w') \<Rightarrow> ([t'], w'))"
  by (induction n arbitrary: t w) (auto split: prod.splits)

lemma task_steps_add:
  "task_steps svc (m + n) t w = (case task_steps svc m t w of (t', w') \<Rightarrow> task_steps svc n t' w')"
  by (induction m arbitrary: t w) (auto split: prod.splits)

lemma task_steps_then:
  assumes "task_steps svc m t w = (t1, w1)" and "task_steps svc n t1 w1 = r"
  shows "task_steps svc (m + n) t w = r"
  using assms by (simp add: task_steps_add)

lemma task_step_then:
  assumes "task_step svc t w = (t1, w1)" and "task_steps svc n t1 w1 = r"
  shows "task_steps svc (Suc n) t w = r"
  using assms by simp

lemma splitting_alone:
  assumes "files w (Named p) = Some content"
  shows "\<exists>n. task_steps svc n (Splitting p k (length content) numChunks i chunks) w =
      (Sending p k (fst (split_loop content 47185920 numChunks i chunks w)) 0 [],
       snd (split_loop content 47185920 numChunks i chunks w))"
  using assms
proof (induction "numChunks - i" arbitrary: i chunks w)
  case 0
  then have ge: "\<not> i < numChunks"
    by simp
  have "task_steps svc (Suc 0) (Splitting p k (length content) numChunks i chunks) w
      = (Sending p k chunks 0 [], w)"
    using ge by simp
  moreover have "split_loop content 47185920 numChunks i chunks w = (chunks, w)"
    using ge by (subst split_loop.simps) simp
  ultimately show ?case
    by (metis fst_conv snd_conv)
next
  case (Suc d)
  then have lt: "i < numChunks" and d: "d = numChunks - Suc i"
    by simp_all
  let ?w2 = "w\<lparr>files := (files w)(TempChunk i \<mapsto>
      take (min (i * 47185920 + 47185920) (length content) - i * 47185920)
        (drop (i * 47185920) content))\<rparr>"
  have st: "task_step svc (Splitting p k (length content) numChunks i chunks) w
      = (Splitting p k (length content) numChunks (Suc i) (chunks @ [TempChunk i]), ?w2)"
    using lt Suc.prems by (simp add: Let_def)
  have f2: "files ?w2 (Named p) = Some content"
    using Suc.prems by simp
  from Suc.hyps(1) [OF d f2, of "chunks @ [TempChunk i]"]
  obtain n where n: "task_steps svc n (Splitting p k (length content) numChunks (Suc i)
        (chunks @ [TempChunk i])) ?w2 =
      (Sending p k (fst (split_loop content 47185920 numChunks (Suc i) (chunks @ [TempChunk i]) ?w2)) 0 [],
       snd (split_loop content 47185920 numChunks (Suc i) (chunks @ [TempChunk i]) ?w2))"
    by blast
  have sl: "split_loop content 47185920 numChunks i chunks w
      = split_loop content 47185920 numChunks (Suc i) (chunks @ [TempChunk i]) ?w2"
    using lt by (subst split_loop.simps) (simp add: Let_def)
  from task_step_then [OF st n] show ?case
    unfolding sl by blast
qed

lemma sending_alone:
  "\<exists>n. task_steps svc n (Sending p k chunks i acc) w =
      (case upload_chunks (drop i chunks) i acc w of
         (Inl e, w') \<Rightarrow> attempt_failed svc p k e w'
       | (Inr ucs, w') \<Rightarrow> (Returned (UploadedChunked (length chunks) ucs), w'))"
proof (induction "length chunks - i" arbitrary: i acc w)
  case 0
  then have ge: "\<not> i < length chunks"
    by simp
  then have "task_steps svc (Suc 0) (Sending p k chunks i acc) w
      = (Returned (UploadedChunked (length chunks) acc), w)"
    by simp
  moreover have "drop i chunks = []"
    using ge by simp
  ultimately show ?case
    by (metis (mono_tags, lifting) upload_chunks.simps(1) old.prod.case sum.case(2))
next
  case (Suc d)
  then have lt: "i < length chunks" and d: "d = length chunks - Suc i"
    by simp_all
  have dr: "drop i chunks = chunks ! i # drop (Suc i) chunks"
    using lt by (simp add: Cons_nth_drop_Suc)
  obtain r1 w1 where s: "sendFile SendDocument (chunks ! i) w = (r1, w1)"
    by (cases "sendFile SendDocument (chunks ! i) w")
  show ?case
  proof (cases r1)
    case (Inl e)
    have "task_steps svc (Suc 0) (Sending p k chunks i acc) w = attempt_failed svc p k e w1"
      using lt s Inl by (simp split: prod.splits)
    moreover have "upload_chunks (drop i chunks) i acc w = (Inl e, w1)"
      unfolding dr using s Inl by simp
    ultimately show ?thesis
      by (metis (mono_tags, lifting) old.prod.case sum.case(1))
  next
    case (Inr m)
    let ?acc = "acc @ [\<lparr>part = i + 1, chunk_messageId = message_id m,
                 chunk_fileId = file_id m, chunk_size = file_size m\<rparr>]"
    let ?w2 = "w1\<lparr>files := (files w1)(chunks ! i := None)\<rparr>"
    have st1: "task_step svc (Sending p k chunks i acc) w = (Removing p k chunks i ?acc, w1)"
      using lt s Inr by simp
    have st2: "task_step svc (Removing p k chunks i ?acc) w1 = (Sending p k chunks (Suc i) ?acc, ?w2)"
      by simp
    have uc: "upload_chunks (drop i chunks) i acc w = upload_chunks (drop (Suc i) chunks) (Suc i) ?acc ?w2"
      unfolding dr using s Inr by simp
    from Suc.hyps(1) [OF d, of ?acc ?w2]
    obtain n where n: "task_steps svc n (Sending p k chunks (Suc i) ?acc) ?w2 =
      (case upload_chunks (drop (Suc i) chunks) (Suc i) ?acc ?w2 of
         (Inl e, w') \<Rightarrow> attempt_failed svc p k e w'
       | (Inr ucs, w') \<Rightarrow> (Returned (UploadedChunked (length chunks) ucs), w'))"
      by blast
    from task_step_then [OF st1 task_step_then [OF st2 n]] show ?thesis
      unfolding uc by blast
  qed
qed

lemma attempt_alone:
  "\<exists>n. task_steps svc n (Attempt p k) w =
      returned (uploadWithRetry_loop svc (uploadLargeVideoToChannel p) (maxRetries svc) k w)"
proof (induction "Suc (maxRetries svc) - k" arbitrary: k w)
  case 0
  then have gt: "\<not> k \<le> maxRetries svc"
    by simp
  then have "task_steps svc (Suc 0) (Attempt p k) w = (Returned (NotUploaded None None), w)"
    by simp
  moreover have "uploadWithRetry_loop svc (uploadLargeVideoToChannel p) (maxRetries svc) k w = (Inr None, w)"
    using gt by (subst uploadWithRetry_loop.simps) simp
  ultimately show ?case
    by (metis (mono_tags, lifting) returned_def old.prod.case sum.case(2) option.case(1))
next
  case (Suc d)
  then have le: "k \<le> maxRetries svc" and d: "d = Suc (maxRetries svc) - Suc k"
    by simp_all
  let ?f = "uploadLargeVideoToChannel p"
  let ?m = "maxRetries svc"
  have fail: "\<exists>n. task_steps svc n (Attempt p k) w = returned (uploadWithRetry_loop svc ?f ?m k w)"
    if run: "task_steps svc j (Attempt p k) w = attempt_failed svc p k e w1"
      and up: "?f w = (Inl e, w1)" for j e w1
  proof (cases "k = ?m")
    case True
    have "uploadWithRetry_loop svc ?f ?m k w = (Inl e, w1)"
      using True up by (subst uploadWithRetry_loop.simps) simp
    with run True have "task_steps svc j (Attempt p k) w = returned (uploadWithRetry_loop svc ?f ?m k w)"
      by (simp add: attempt_failed_def returned_def)
    then show ?thesis ..
  next
    case False
    let ?w2 = "sleep (retryDelay svc * k) w1"
    have l: "uploadWithRetry_loop svc ?f ?m k w = uploadWithRetry_loop svc ?f ?m (Suc k) ?w2"
      using le False up by (subst uploadWithRetry_loop.simps) simp
    from run False have run': "task_steps svc j (Attempt p k) w = (Attempt p (Suc k), ?w2)"
      by (simp add: attempt_failed_def)
    from Suc.hyps(1) [OF d, of ?w2]
    obtain n where "task_steps svc n (Attempt p (Suc k)) ?w2
        = returned (uploadWithRetry_loop svc ?f ?m (Suc k) ?w2)"
      by blast
    from task_steps_then [OF run' this] show ?thesis
      unfolding l by blast
  qed
  show ?case
  proof (cases "files w (Named p)")
    case None
    have run: "task_steps svc (Suc 0) (Attempt p k) w = attempt_failed svc p k ''ENOENT'' w"
      using le None by (simp split: prod.splits)
    have up: "?f w = (Inl ''ENOENT'', w)"
      using None by (simp add: uploadLargeVideoToChannel_def splitVideoFile_def)
    from fail [OF run up] show ?thesis .
  next
    case (Some content)
    let ?n = "ceil_div (length content) 47185920"
    let ?sl = "split_loop content 47185920 ?n 0 [] w"
    have st: "task_step svc (Attempt p k) w = (Splitting p k (length content) ?n 0 [], w)"
      using le Some by simp
    from splitting_alone [OF Some, of svc k ?n 0 "[]"]
    obtain n1 where n1: "task_steps svc n1 (Splitting p k (length content) ?n 0 []) w
        = (Sending p k (fst ?sl) 0 [], snd ?sl)"
      by blast
    from sending_alone [of svc p k "fst ?sl" 0 "[]" "snd ?sl"]
    obtain n2 where n2: "task_steps svc n2 (Sending p k (fst ?sl) 0 []) (snd ?sl) =
      (case upload_chunks (fst ?sl) 0 [] (snd ?sl) of
         (Inl e, w') \<Rightarrow> attempt_failed svc p k e w'
       | (Inr ucs, w') \<Rightarrow> (Returned (UploadedChunked (length (fst ?sl)) ucs), w'))"
      by auto
    note run = task_step_then [OF st task_steps_then [OF n1 n2]]
    have sp: "splitVideoFile p 47185920 w = (Inr (fst ?sl), snd ?sl)"
      using Some by (simp add: splitVideoFile_def split: prod.splits)
    obtain r2 w2 where uc: "upload_chunks (fst ?sl) 0 [] (snd ?sl) = (r2, w2)"
      by (cases "upload_chunks (fst ?sl) 0 [] (snd ?sl)")
    show ?thesis
    proof (cases r2)
      case (Inl e)
      have up: "?f w = (Inl e, w2)"
        using sp uc Inl by (simp add: uploadLargeVideoToChannel_def)
      from run uc Inl have "task_steps svc (Suc (n1 + n2)) (Attempt p k) w = attempt_failed svc p k e w2"
        by simp
      from fail [OF this up] show ?thesis .
    next
      case (Inr ucs)
      have up: "?f w = (Inr (UploadedChunked (length (fst ?sl)) ucs), w2)"
        using sp uc Inr by (simp add: uploadLargeVideoToChannel_def)
      have "uploadWithRetry_loop svc ?f ?m k w = (Inr (Some (UploadedChunked (length (fst ?sl)) ucs)), w2)"
        using le up by (subst uploadWithRetry_loop.simps) simp
      with run uc Inr have "task_steps svc (Suc (n1 + n2)) (Attempt p k) w
          = returned (uploadWithRetry_loop svc ?f ?m k w)"
        by (simp add: returned_def)
      then show ?thesis ..
    qed
  qed
qed

lemma upload_task_alone:
  "\<exists>n. run_tasks svc (replicate n 0) [Called p] w
      = ([Returned (fst (uploadVideo svc p w))], snd (uploadVideo svc p w))"
proof -
  have "\<exists>n. task_steps svc n (Called p) w
      = (Returned (fst (uploadVideo svc p w)), snd (uploadVideo svc p w))"
  proof (cases "bot svc \<and> (\<exists>content. files w (Named p) = Some content \<and> maxFileSize svc < length content)")
    case False
    then have "task_steps svc (Suc 0) (Called p) w
        = (Returned (fst (uploadVideo svc p w)), snd (uploadVideo svc p w))"
      by (auto simp: uploadVideo_def split: option.splits prod.splits)
    then show ?thesis ..
  next
    case True
    then obtain content where b: "bot svc" and f: "files w (Named p) = Some content"
      and gt: "maxFileSize svc < length content"
      by blast
    have st: "task_step svc (Called p) w = (Attempt p 1, w)"
      using b f gt by simp
    from attempt_alone [of svc p 1 w]
    obtain n where n: "task_steps svc n (Attempt p 1) w =
        returned (uploadWithRetry_loop svc (uploadLargeVideoToChannel p) (maxRetries svc) 1 w)"
      by blast
    have "returned (uploadWithRetry_loop svc (uploadLargeVideoToChannel p) (maxRetries svc) 1 w)
        = (Returned (fst (uploadVideo svc p w)), snd (uploadVideo svc p w))"
      unfolding uploadVideo_large_eq [OF b f gt] uploadWithRetry_def returned_def
      by (simp split: prod.splits sum.splits option.splits)
    with task_step_then [OF st n] show ?thesis
      by metis
  qed
  then obtain n where "task_steps svc n (Called p) w
      = (Returned (fst (uploadVideo svc p w)), snd (uploadVideo svc p w))"
    by blast
  then have "run_tasks svc (replicate n 0) [Called p] w
      = ([Returned (fst (uploadVideo svc p w))], snd (uploadVideo svc p w))"
    by (simp add: run_tasks_alone)
  then show ?thesis ..
qed

lemma ex_overlap_run:
  "ex_overlap =
     ([Returned ex_overlap_record, Splitting ''b.mp4'' 1 60000000 2 2 [TempChunk 0, TempChunk 1]],
      \<lparr>files = [Named ''a.mp4'' \<mapsto> replicate 60000000 1, Named ''b.mp4'' \<mapsto> replicate 60000000 2],
       objects = [replicate 47185920 2, replicate 12814080 2], script = [],
       calls = [SendDocument, SendDocument], slept = []\<rparr>)"
  unfolding ex_overlap_def ex_overlap_record_def ex_two_files_def
  by (simp add: new_TelegramService_def ceil_div_def sendFile_def bot_send_def next_outcome_def
      Let_def fun_upd_twist)

text \<open>
  Claim C1 fails for uploads that overlap. Every chunked upload writes its parts to the same
  files \<^verbatim>\<open>temp/chunk_<i>.bin\<close>. With the two files of 60 000 000 bytes, both above the
  limit of 50 MB, and the second upload splitting its file between the split and the sends of
  the first, the first upload returns an uploaded chunked record of two parts, numbered 1
  and 2, of 45 MB and of the rest. The parts stored for it are the bytes of \<^verbatim>\<open>b.mp4\<close>:
  downloading the record completes and writes the bytes of \<^verbatim>\<open>b.mp4\<close> to the destination,
  not those of \<^verbatim>\<open>a.mp4\<close>, the file that was uploaded.
\<close>

theorem chunked_upload_overlap:
  "fst ex_overlap ! 0 = Returned ex_overlap_record
   \<and> uploaded ex_overlap_record
   \<and> files ex_two_files (Named ''a.mp4'') = Some (replicate 60000000 1)
   \<and> maxFileSize (new_TelegramService True) < length (replicate 60000000 (1 :: 8 word))
   \<and> fst (downloadChunkedVideo ex_overlap_record ''out.mp4'' (snd ex_overlap)) = Inr ()
   \<and> files (snd (downloadChunkedVideo ex_overlap_record ''out.mp4'' (snd ex_overlap)))
        (Named ''out.mp4'') = Some (replicate 60000000 2)
   \<and> files (snd (downloadChunkedVideo ex_overlap_record ''out.mp4'' (snd ex_overlap)))
        (Named ''a.mp4'') = Some (replicate 60000000 1)
   \<and> replicate 60000000 (2 :: 8 word) \<noteq> replicate 60000000 1"
proof -
  have j: "replicate 47185920 (2 :: 8 word) @ replicate 12814080 2 = replicate 60000000 2"
    using replicate_add [of 47185920 12814080 "2 :: 8 word"] by simp
  have d: "downloadChunkedVideo ex_overlap_record ''out.mp4'' (snd ex_overlap) =
     (Inr (),
      \<lparr>files = [Named ''a.mp4'' \<mapsto> replicate 60000000 1, Named ''b.mp4'' \<mapsto> replicate 60000000 2,
                Named ''out.mp4'' \<mapsto> replicate 60000000 2],
       objects = [replicate 47185920 2, replicate 12814080 2], script = [],
       calls = [SendDocument, SendDocument], slept = []\<rparr>)"
    unfolding ex_overlap_run
    by (simp add: ex_overlap_record_def downloadChunkedVideo_def getFileStream_def next_outcome_def
        append_file_def j)
  have ne: "replicate 60000000 (2 :: 8 word) \<noteq> replicate 60000000 1"
  proof
    assume "replicate 60000000 (2 :: 8 word) = replicate 60000000 1"
    then have "hd (replicate 60000000 (2 :: 8 word)) = hd (replicate 60000000 1)"
      by simp
    then show False
      by simp
  qed
  have a: "fst ex_overlap ! 0 = Returned ex_overlap_record"
    by (simp add: ex_overlap_run)
  have b: "uploaded ex_overlap_record"
    by (simp add: ex_overlap_record_def)
  have c: "files ex_two_files (Named ''a.mp4'') = Some (replicate 60000000 1)"
    by (simp add: ex_two_files_def)
  have e: "maxFileSize (new_TelegramService True) < length (replicate 60000000 (1 :: 8 word))"
    by (simp add: new_TelegramService_def)
  from a b c e ne show ?thesis
    unfolding d by simp
qed

subsection \<open>The upload path and its attempts\<close>

text \<open>
  Claim C5. With the file's size at most the per-object limit, the upload takes the
  single-object path: every attempt of \<^verbatim>\<open>uploadVideo\<close> is the single-object upload
  \<^verbatim>\<open>uploadSmallVideoToChannel\<close>, so the calls it makes are \<^verbatim>\<open>sendVideo\<close> calls, at least one
  and at most \<^verbatim>\<open>maxRetries\<close>; when the first call does not fail the result is the single
  record of the whole file, stored as one object, after one \<^verbatim>\<open>sendVideo\<close> call; every
  uploaded result is a single record whose object is the file; it makes no
  \<^verbatim>\<open>sendDocument\<close> call and its result is never a chunked record. Only with the size
  strictly above the limit does it take the chunked path: every attempt is
  \<^verbatim>\<open>uploadLargeVideoToChannel\<close>, when no call fails the result is a chunked record of
  \<open>\<lceil>size / 45 MB\<rceil>\<close> parts after that many \<^verbatim>\<open>sendDocument\<close> calls, it makes no
  \<^verbatim>\<open>sendVideo\<close> call and its result is never a single record. \<^verbatim>\<open>uploadToChannel\<close> makes
  the same choice.
\<close>

theorem upload_path_chosen_by_size:
  assumes "bot svc" and "files w (Named p) = Some content"
    and "uploadVideo svc p w = (td, w')"
  shows "(length content \<le> maxFileSize svc \<longrightarrow>
            uploadVideo svc p w =
              (case uploadWithRetry svc (uploadSmallVideoToChannel p) w of
                 (Inl e, v) \<Rightarrow> (NotUploaded None (Some e), v)
               | (Inr None, v) \<Rightarrow> (NotUploaded None None, v)
               | (Inr (Some r), v) \<Rightarrow> (r, v))
            \<and> (\<exists>k. calls w' = calls w @ replicate k SendVideo \<and> k \<le> maxRetries svc
                  \<and> (0 < maxRetries svc \<longrightarrow> 0 < k))
            \<and> (0 < maxRetries svc \<and> next_outcome w = None \<longrightarrow>
                  td = UploadedSingle (length (objects w)) (length (objects w)) (length content)
                  \<and> objects w' = objects w @ [content] \<and> calls w' = calls w @ [SendVideo])
            \<and> (uploaded td \<longrightarrow>
                  (\<exists>m. td = UploadedSingle m m (length content) \<and> m < length (objects w')
                     \<and> objects w' ! m = content))
            \<and> (\<forall>n cs. td \<noteq> UploadedChunked n cs)
            \<and> SendDocument \<notin> set (drop (length (calls w)) (calls w')))
     \<and> (maxFileSize svc < length content \<longrightarrow>
            uploadVideo svc p w =
              (case uploadWithRetry svc (uploadLargeVideoToChannel p) w of
                 (Inl e, v) \<Rightarrow> (NotUploaded None (Some e), v)
               | (Inr None, v) \<Rightarrow> (NotUploaded None None, v)
               | (Inr (Some r), v) \<Rightarrow> (r, v))
            \<and> (0 < maxRetries svc \<and> set (script w) \<subseteq> {None} \<longrightarrow>
                  (\<exists>chunks. td = UploadedChunked (ceil_div (length content) (45 * 1024 * 1024)) chunks)
                  \<and> calls w' = calls w @
                      replicate (ceil_div (length content) (45 * 1024 * 1024)) SendDocument)
            \<and> (\<forall>m f s. td \<noteq> UploadedSingle m f s)
            \<and> SendVideo \<notin> set (drop (length (calls w)) (calls w')))
     \<and> ((\<exists>n cs. td = UploadedChunked n cs) \<longrightarrow> maxFileSize svc < length content)
     \<and> uploadToChannel svc p w =
          (if maxFileSize svc < length content then uploadLargeVideoToChannel p w
           else uploadSmallVideoToChannel p w)"
proof -
  have cs: "(45::nat) * 1024 * 1024 = 47185920"
    by simp
  have small: "length content \<le> maxFileSize svc \<longrightarrow>
            uploadVideo svc p w =
              (case uploadWithRetry svc (uploadSmallVideoToChannel p) w of
                 (Inl e, v) \<Rightarrow> (NotUploaded None (Some e), v)
               | (Inr None, v) \<Rightarrow> (NotUploaded None None, v)
               | (Inr (Some r), v) \<Rightarrow> (r, v))
            \<and> (\<exists>k. calls w' = calls w @ replicate k SendVideo \<and> k \<le> maxRetries svc
                  \<and> (0 < maxRetries svc \<longrightarrow> 0 < k))
            \<and> (0 < maxRetries svc \<and> next_outcome w = None \<longrightarrow>
                  td = UploadedSingle (length (objects w)) (length (objects w)) (length content)
                  \<and> objects w' = objects w @ [content] \<and> calls w' = calls w @ [SendVideo])
            \<and> (uploaded td \<longrightarrow>
                  (\<exists>m. td = UploadedSingle m m (length content) \<and> m < length (objects w')
                     \<and> objects w' ! m = content))
            \<and> (\<forall>n cs. td \<noteq> UploadedChunked n cs)
            \<and> SendDocument \<notin> set (drop (length (calls w)) (calls w'))"
  proof
    assume le: "length content \<le> maxFileSize svc"
    note a = uploadVideo_small_eq [OF assms(1,2) le]
    note b = small_path_calls [OF assms(1,2) le assms(3)]
    have c: "0 < maxRetries svc \<and> next_outcome w = None \<longrightarrow>
                  td = UploadedSingle (length (objects w)) (length (objects w)) (length content)
                  \<and> objects w' = objects w @ [content] \<and> calls w' = calls w @ [SendVideo]"
    proof
      assume h: "0 < maxRetries svc \<and> next_outcome w = None"
      then have "uploadVideo svc p w =
         (UploadedSingle (length (objects w)) (length (objects w)) (length content),
          w\<lparr>objects := objects w @ [content], script := tl (script w),
            calls := calls w @ [SendVideo]\<rparr>)"
        using small_path_first [OF assms(1,2) le] by blast
      with assms(3) show "td = UploadedSingle (length (objects w)) (length (objects w)) (length content)
                  \<and> objects w' = objects w @ [content] \<and> calls w' = calls w @ [SendVideo]"
        by auto
    qed
    have d: "uploaded td \<longrightarrow>
                  (\<exists>m. td = UploadedSingle m m (length content) \<and> m < length (objects w')
                     \<and> objects w' ! m = content)"
      using small_path_single [OF assms(1,2) le assms(3)] by blast
    from small_path_run [OF assms(1,2) le assms(3)]
    obtain new where "calls w' = calls w @ new" "set new \<subseteq> {SendVideo}"
      and nc: "\<forall>n cs. td \<noteq> UploadedChunked n cs"
      by blast
    then have e: "SendDocument \<notin> set (drop (length (calls w)) (calls w'))"
      by auto
    from a b c d nc e show "uploadVideo svc p w =
              (case uploadWithRetry svc (uploadSmallVideoToChannel p) w of
                 (Inl e, v) \<Rightarrow> (NotUploaded None (Some e), v)
               | (Inr None, v) \<Rightarrow> (NotUploaded None None, v)
               | (Inr (Some r), v) \<Rightarrow> (r, v))
            \<and> (\<exists>k. calls w' = calls w @ replicate k SendVideo \<and> k \<le> maxRetries svc
                  \<and> (0 < maxRetries svc \<longrightarrow> 0 < k))
            \<and> (0 < maxRetries svc \<and> next_outcome w = None \<longrightarrow>
                  td = UploadedSingle (length (objects w)) (length (objects w)) (length content)
                  \<and> objects w' = objects w @ [content] \<and> calls w' = calls w @ [SendVideo])
            \<and> (uploaded td \<longrightarrow>
                  (\<exists>m. td = UploadedSingle m m (length content) \<and> m < length (objects w')
                     \<and> objects w' ! m = content))
            \<and> (\<forall>n cs. td \<noteq> UploadedChunked n cs)
            \<and> SendDocument \<notin> set (drop (length (calls w)) (calls w'))"
      by (intro conjI)
  qed
  have large: "maxFileSize svc < length content \<longrightarrow>
            uploadVideo svc p w =
              (case uploadWithRetry svc (uploadLargeVideoToChannel p) w of
                 (Inl e, v) \<Rightarrow> (NotUploaded None (Some e), v)
               | (Inr None, v) \<Rightarrow> (NotUploaded None None, v)
               | (Inr (Some r), v) \<Rightarrow> (r, v))
            \<and> (0 < maxRetries svc \<and> set (script w) \<subseteq> {None} \<longrightarrow>
                  (\<exists>chunks. td = UploadedChunked (ceil_div (length content) 47185920) chunks)
                  \<and> calls w' = calls w @
                      replicate (ceil_div (length content) 47185920) SendDocument)
            \<and> (\<forall>m f s. td \<noteq> UploadedSingle m f s)
            \<and> SendVideo \<notin> set (drop (length (calls w)) (calls w'))"
  proof
    assume gt: "maxFileSize svc < length content"
    note a = uploadVideo_large_eq [OF assms(1,2) gt]
    have b: "0 < maxRetries svc \<and> set (script w) \<subseteq> {None} \<longrightarrow>
                  (\<exists>chunks. td = UploadedChunked (ceil_div (length content) 47185920) chunks)
                  \<and> calls w' = calls w @
                      replicate (ceil_div (length content) 47185920) SendDocument"
      using large_path_first [OF assms(1,2) gt _ _ assms(3)] by blast
    from large_path_run [OF assms(1,2) gt assms(3)]
    obtain new where "calls w' = calls w @ new" "set new \<subseteq> {SendDocument}"
      and ns: "\<forall>m f s. td \<noteq> UploadedSingle m f s"
      by blast
    then have c: "SendVideo \<notin> set (drop (length (calls w)) (calls w'))"
      by auto
    from a b ns c show "uploadVideo svc p w =
              (case uploadWithRetry svc (uploadLargeVideoToChannel p) w of
                 (Inl e, v) \<Rightarrow> (NotUploaded None (Some e), v)
               | (Inr None, v) \<Rightarrow> (NotUploaded None None, v)
               | (Inr (Some r), v) \<Rightarrow> (r, v))
            \<and> (0 < maxRetries svc \<and> set (script w) \<subseteq> {None} \<longrightarrow>
                  (\<exists>chunks. td = UploadedChunked (ceil_div (length content) 47185920) chunks)
                  \<and> calls w' = calls w @
                      replicate (ceil_div (length content) 47185920) SendDocument)
            \<and> (\<forall>m f s. td \<noteq> UploadedSingle m f s)
            \<and> SendVideo \<notin> set (drop (length (calls w)) (calls w'))"
      by (intro conjI)
  qed
  from small have only: "(\<exists>n cs. td = UploadedChunked n cs) \<longrightarrow> maxFileSize svc < length content"
    by (cases "maxFileSize svc < length content") auto
  have ch: "uploadToChannel svc p w =
          (if maxFileSize svc < length content then uploadLargeVideoToChannel p w
           else uploadSmallVideoToChannel p w)"
    using assms(2) by (simp add: uploadToChannel_def)
  from small large only ch show ?thesis
    unfolding cs by (intro conjI)
qed

theorem upload_path_chosen_by_size_witness:
  "bot (new_TelegramService True)
   \<and> files (ex_world [1, 2, 3] []) (Named ''v.mp4'') = Some [1, 2, 3]
   \<and> length [1, 2, 3 :: 8 word] \<le> maxFileSize (new_TelegramService True)
   \<and> 0 < maxRetries (new_TelegramService True)
   \<and> next_outcome (ex_world [1, 2, 3] []) = None
   \<and> fst (uploadVideo (new_TelegramService True) ''v.mp4'' (ex_world [1, 2, 3] []))
        = UploadedSingle 0 0 3
   \<and> objects (snd (uploadVideo (new_TelegramService True) ''v.mp4'' (ex_world [1, 2, 3] [])))
        = [[1, 2, 3]]
   \<and> calls (snd (uploadVideo (new_TelegramService True) ''v.mp4'' (ex_world [1, 2, 3] [])))
        = [SendVideo]
   \<and> files (ex_world (replicate 60000000 7) []) (Named ''v.mp4'') = Some (replicate 60000000 7)
   \<and> maxFileSize (new_TelegramService True) < length (replicate 60000000 (7 :: 8 word))
   \<and> set (script (ex_world (replicate 60000000 7) [])) \<subseteq> {None}
   \<and> (\<exists>chunks. fst (uploadVideo (new_TelegramService True) ''v.mp4''
                      (ex_world (replicate 60000000 7) [])) = UploadedChunked 2 chunks)
   \<and> calls (snd (uploadVideo (new_TelegramService True) ''v.mp4''
                      (ex_world (replicate 60000000 7) []))) = [SendDocument, SendDocument]
   \<and> (\<forall>m f s. fst (uploadVideo (new_TelegramService True) ''v.mp4''
                      (ex_world (replicate 60000000 7) [])) \<noteq> UploadedSingle m f s)"
proof -
  let ?svc = "new_TelegramService True"
  let ?w1 = "ex_world [1, 2, 3] []"
  let ?r1 = "uploadVideo ?svc ''v.mp4'' ?w1"
  let ?w2 = "ex_world (replicate 60000000 7) []"
  let ?r2 = "uploadVideo ?svc ''v.mp4'' ?w2"
  have a1: "bot ?svc"
    by (simp add: new_TelegramService_def)
  have a2: "files ?w1 (Named ''v.mp4'') = Some [1, 2, 3]"
    by (simp add: ex_world_def)
  have a3: "length [1, 2, 3 :: 8 word] \<le> maxFileSize ?svc"
    by (simp add: new_TelegramService_def)
  have a4: "?r1 = (fst ?r1, snd ?r1)"
    by simp
  have a5: "0 < maxRetries ?svc"
    by (simp add: new_TelegramService_def)
  have a6: "next_outcome ?w1 = None"
    by (simp add: next_outcome_def ex_world_def)
  have b2: "files ?w2 (Named ''v.mp4'') = Some (replicate 60000000 7)"
    by (simp add: ex_world_def)
  have b3: "maxFileSize ?svc < length (replicate 60000000 (7 :: 8 word))"
    by (simp add: new_TelegramService_def)
  have b4: "?r2 = (fst ?r2, snd ?r2)"
    by simp
  have b6: "set (script ?w2) \<subseteq> {None}"
    by (simp add: ex_world_def)
  have n: "ceil_div (length (replicate 60000000 (7 :: 8 word))) (45 * 1024 * 1024) = 2"
    by (simp add: ceil_div_def)
  from upload_path_chosen_by_size [OF a1 a2 a4] a3 a5 a6
  have c1: "fst ?r1 = UploadedSingle (length (objects ?w1)) (length (objects ?w1)) (length [1, 2, 3 :: 8 word])"
    and c2: "objects (snd ?r1) = objects ?w1 @ [[1, 2, 3]]"
    and c3: "calls (snd ?r1) = calls ?w1 @ [SendVideo]"
    by blast+
  from upload_path_chosen_by_size [OF a1 b2 b4] b3 a5 b6
  have d1: "\<exists>chunks. fst ?r2 = UploadedChunked (ceil_div (length (replicate 60000000 (7 :: 8 word))) (45 * 1024 * 1024)) chunks"
    and d2: "calls (snd ?r2) = calls ?w2 @ replicate (ceil_div (length (replicate 60000000 (7 :: 8 word))) (45 * 1024 * 1024)) SendDocument"
    and d3: "\<forall>m f s. fst ?r2 \<noteq> UploadedSingle m f s"
    by blast+
  have e1: "fst ?r1 = UploadedSingle 0 0 3"
    using c1 by (simp add: ex_world_def)
  have e2: "objects (snd ?r1) = [[1, 2, 3]]"
    using c2 by (simp add: ex_world_def)
  have e3: "calls (snd ?r1) = [SendVideo]"
    using c3 by (simp add: ex_world_def)
  have f1: "\<exists>chunks. fst ?r2 = UploadedChunked 2 chunks"
    using d1 unfolding n .
  have f2: "calls (snd ?r2) = [SendDocument, SendDocument]"
    using d2 unfolding n by (simp add: ex_world_def numeral_2_eq_2)
  from a1 a2 a3 a5 a6 e1 e2 e3 b2 b3 b6 f1 f2 d3 show ?thesis
    by (intro conjI)
qed

lemma attempt_slept:
  assumes "attempt = (if maxFileSize svc < length content then uploadLargeVideoToChannel p
                      else uploadToChannel svc p)"
    and "attempt v = (r, v')"
  shows "slept v' = slept v"
proof (cases "maxFileSize svc < length content")
  case True
  with assms have "uploadLargeVideoToChannel p v = (r, v')"
    by simp
  from uploadLargeVideoToChannel_frame [OF this, of p] show ?thesis
    by simp
next
  case False
  with assms have "uploadToChannel svc p v = (r, v')"
    by simp
  then show ?thesis
    by (rule uploadToChannel_slept)
qed

text \<open>
  Claim C7. The configured service makes at most three attempts at the primary upload: a
  second one after sleeping \<open>5000 * 1\<close> ms and a third after sleeping \<open>5000 * 2\<close> ms, each
  only when the one before failed. When the third fails too, \<^verbatim>\<open>uploadVideo\<close> does not
  throw: it returns the value \<^verbatim>\<open>{uploaded: false, error}\<close> with the message of the last
  failure, and has slept exactly those two delays.
\<close>

theorem uploadVideo_three_attempts:
  assumes "files w (Named p) = Some content"
    and "attempt = (if maxFileSize (new_TelegramService True) < length content
                    then uploadLargeVideoToChannel p
                    else uploadToChannel (new_TelegramService True) p)"
  shows "uploadVideo (new_TelegramService True) p w =
      (case attempt w of
         (Inr r, w1) \<Rightarrow> (r, w1)
       | (Inl e1, w1) \<Rightarrow>
          (case attempt (sleep (5000 * 1) w1) of
             (Inr r, w2) \<Rightarrow> (r, w2)
           | (Inl e2, w2) \<Rightarrow>
              (case attempt (sleep (5000 * 2) w2) of
                 (Inr r, w3) \<Rightarrow> (r, w3)
               | (Inl e3, w3) \<Rightarrow> (NotUploaded None (Some e3), w3))))
    \<and> (\<forall>e1 w1 e2 w2 e3 w3.
          attempt w = (Inl e1, w1) \<and> attempt (sleep (5000 * 1) w1) = (Inl e2, w2)
          \<and> attempt (sleep (5000 * 2) w2) = (Inl e3, w3) \<longrightarrow>
            uploadVideo (new_TelegramService True) p w = (NotUploaded None (Some e3), w3)
            \<and> slept w3 = slept w @ [5000, 10000])"
proof -
  let ?svc = "new_TelegramService True"
  have cfg: "maxRetries ?svc = 3" "retryDelay ?svc = 5000" "bot ?svc"
    by (simp_all add: new_TelegramService_def)
  have uv: "uploadVideo ?svc p w =
      (case uploadWithRetry ?svc attempt w of
         (Inl e, w') \<Rightarrow> (NotUploaded None (Some e), w')
       | (Inr None, w') \<Rightarrow> (NotUploaded None None, w')
       | (Inr (Some r), w') \<Rightarrow> (r, w'))"
    using assms cfg(3)
    by (simp add: uploadVideo_def uploadLargeVideoWithRetry_def uploadSmallVideoWithRetry_def)
  have eq: "uploadVideo ?svc p w =
      (case attempt w of
         (Inr r, w1) \<Rightarrow> (r, w1)
       | (Inl e1, w1) \<Rightarrow>
          (case attempt (sleep (5000 * 1) w1) of
             (Inr r, w2) \<Rightarrow> (r, w2)
           | (Inl e2, w2) \<Rightarrow>
              (case attempt (sleep (5000 * 2) w2) of
                 (Inr r, w3) \<Rightarrow> (r, w3)
               | (Inl e3, w3) \<Rightarrow> (NotUploaded None (Some e3), w3))))"
    unfolding uv uploadWithRetry_3 [OF cfg(1)] cfg(2)
    by (simp split: prod.splits sum.splits)
  have fail: "\<forall>e1 w1 e2 w2 e3 w3.
          attempt w = (Inl e1, w1) \<and> attempt (sleep (5000 * 1) w1) = (Inl e2, w2)
          \<and> attempt (sleep (5000 * 2) w2) = (Inl e3, w3) \<longrightarrow>
            uploadVideo ?svc p w = (NotUploaded None (Some e3), w3)
            \<and> slept w3 = slept w @ [5000, 10000]"
  proof (intro allI impI, elim conjE)
    fix e1 w1 e2 w2 e3 w3
    assume a1: "attempt w = (Inl e1, w1)"
      and a2: "attempt (sleep (5000 * 1) w1) = (Inl e2, w2)"
      and a3: "attempt (sleep (5000 * 2) w2) = (Inl e3, w3)"
    have r: "uploadVideo ?svc p w = (NotUploaded None (Some e3), w3)"
      using a1 a2 a3 by (simp add: eq)
    have "slept w1 = slept w"
      using attempt_slept [OF assms(2) a1] .
    moreover have "slept w2 = slept (sleep (5000 * 1) w1)"
      using attempt_slept [OF assms(2) a2] .
    moreover have "slept w3 = slept (sleep (5000 * 2) w2)"
      using attempt_slept [OF assms(2) a3] .
    ultimately have "slept w3 = slept w @ [5000, 10000]"
      by (simp add: sleep_def)
    with r show "uploadVideo ?svc p w = (NotUploaded None (Some e3), w3)
            \<and> slept w3 = slept w @ [5000, 10000]"
      by simp
  qed
  from eq fail show ?thesis ..
qed

theorem uploadVideo_three_attempts_witness:
  "files (ex_world [1, 2, 3] [Some ''e1'', Some ''e2'', Some ''e3'']) (Named ''v.mp4'') = Some [1, 2, 3]
   \<and> fst (uploadVideo (new_TelegramService True) ''v.mp4''
          (ex_world [1, 2, 3] [Some ''e1'', Some ''e2'', Some ''e3'']))
        = NotUploaded None (Some ''e3'')
   \<and> slept (snd (uploadVideo (new_TelegramService True) ''v.mp4''
          (ex_world [1, 2, 3] [Some ''e1'', Some ''e2'', Some ''e3''])))
        = [5000, 10000]
   \<and> calls (snd (uploadVideo (new_TelegramService True) ''v.mp4''
          (ex_world [1, 2, 3] [Some ''e1'', Some ''e2'', Some ''e3''])))
        = [SendVideo, SendVideo, SendVideo]"
proof -
  let ?svc = "new_TelegramService True"
  let ?w = "ex_world [1, 2, 3] [Some ''e1'', Some ''e2'', Some ''e3'']"
  let ?attempt = "if maxFileSize ?svc < length [1, 2, 3 :: 8 word]
                    then uploadLargeVideoToChannel ''v.mp4''
                    else uploadToChannel ?svc ''v.mp4''"
  let ?w1 = "snd (?attempt ?w)"
  let ?w2 = "snd (?attempt (sleep (5000 * 1) ?w1))"
  let ?w3 = "snd (?attempt (sleep (5000 * 2) ?w2))"
  have h1: "files ?w (Named ''v.mp4'') = Some [1, 2, 3]"
    by (simp add: ex_world_def)
  have h2: "?attempt = ?attempt"
    by (rule refl)
  have t1: "?attempt ?w = (Inl ''e1'', ?w1)"
    by (simp add: ex_world_def telegram_eval)
  have t2: "?attempt (sleep (5000 * 1) ?w1) = (Inl ''e2'', ?w2)"
    by (simp add: ex_world_def telegram_eval)
  have t3: "?attempt (sleep (5000 * 2) ?w2) = (Inl ''e3'', ?w3)"
    by (simp add: ex_world_def telegram_eval)
  from uploadVideo_three_attempts [OF h1 h2] t1 t2 t3
  have r: "uploadVideo ?svc ''v.mp4'' ?w = (NotUploaded None (Some ''e3''), ?w3)"
    and s: "slept ?w3 = slept ?w @ [5000, 10000]"
    by blast+
  have c: "calls ?w3 = [SendVideo, SendVideo, SendVideo]"
    by (simp add: ex_world_def telegram_eval)
  from r have r1: "fst (uploadVideo ?svc ''v.mp4'' ?w) = NotUploaded None (Some ''e3'')"
    and r2: "snd (uploadVideo ?svc ''v.mp4'' ?w) = ?w3"
    by simp_all
  from s have s': "slept ?w3 = [5000, 10000]"
    by (simp add: ex_world_def)
  show ?thesis
    unfolding r1 r2 using h1 s' c by (intro conjI) simp_all
qed

subsection \<open>Audio extraction guard\<close>

text \<open>
  Claim C9. With a track list that is missing, empty or of length one, the extraction
  returns the empty list and does nothing: no directory is created, no callback is called
  and the engine is not run.
\<close>

theorem extractAudioTracks_noop:
  assumes "audioTracks = None \<or> (\<exists>tracks. audioTracks = Some tracks \<and> length tracks \<le> 1)"
  shows "extractAudioTracks ffmpeg cb audioTracks = ([], [])"
  using assms by (auto simp: extractAudioTracks_def)

theorem extractAudioTracks_noop_witness:
  "extractAudioTracks (\<lambda>i k. Inr 1000) True None = ([], [])
   \<and> extractAudioTracks (\<lambda>i k. Inr 1000) True (Some []) = ([], [])
   \<and> extractAudioTracks (\<lambda>i k. Inr 1000) True
        (Some [\<lparr>track_index = None, track_language = Some ''eng'', track_title = None\<rparr>]) = ([], [])"
proof -
  let ?t = "\<lparr>track_index = None, track_language = Some ''eng'', track_title = None\<rparr>"
  have a: "extractAudioTracks (\<lambda>i k. Inr 1000) True None = ([], [])"
    by (rule extractAudioTracks_noop) simp
  have b: "extractAudioTracks (\<lambda>i k. Inr 1000) True (Some []) = ([], [])"
    by (rule extractAudioTracks_noop) simp
  have c: "extractAudioTracks (\<lambda>i k. Inr 1000) True (Some [?t]) = ([], [])"
    by (rule extractAudioTracks_noop) simp
  from a b c show ?thesis
    by (intro conjI)
qed

subsection \<open>Bulk upload of segment files\<close>

lemma in_batches_of_three_Nil: "in_batches_of_three schedule [] w = ([], w)"
  by (subst in_batches_of_three.simps) (simp add: upload_batch_def settle_batch.simps)

lemma upload_batches_refines:
  "upload_batches schedule hlsFiles i acc w =
     (case in_batches_of_three schedule (drop i hlsFiles) w of (rs, w') \<Rightarrow> (acc @ rs, w'))"
proof (induction schedule hlsFiles i acc w rule: upload_batches.induct)
  case (1 schedule hlsFiles i acc w)
  show ?case
  proof (cases "i < length hlsFiles")
    case False
    then show ?thesis
      by (subst upload_batches.simps) (simp add: in_batches_of_three_Nil)
  next
    case True
    obtain br w1 where b: "upload_batch schedule (take 3 (drop i hlsFiles)) w = (br, w1)"
      by (cases "upload_batch schedule (take 3 (drop i hlsFiles)) w")
    let ?w2 = "if i + 3 < length hlsFiles then sleep 3000 w1 else w1"
    have lhs: "upload_batches schedule hlsFiles i acc w
        = upload_batches schedule hlsFiles (i + 3) (acc @ br) ?w2"
      using True b by (subst upload_batches.simps) simp
    note ih = "1.IH" [OF True b [symmetric]]
    show ?thesis
    proof (cases "i + 3 < length hlsFiles")
      case False
      then have short: "length (drop i hlsFiles) \<le> 3" and all: "take 3 (drop i hlsFiles) = drop i hlsFiles"
        and none: "drop (i + 3) hlsFiles = []"
        by simp_all
      have "in_batches_of_three schedule (drop i hlsFiles) w = (br, w1)"
        using short b all by (subst in_batches_of_three.simps) simp
      with lhs ih False none show ?thesis
        by (simp add: in_batches_of_three_Nil)
    next
      case long: True
      then have nshort: "\<not> length (drop i hlsFiles) \<le> 3"
        by simp
      have d: "drop 3 (drop i hlsFiles) = drop (i + 3) hlsFiles"
        by (simp add: add.commute)
      have "in_batches_of_three schedule (drop i hlsFiles) w =
          (case in_batches_of_three schedule (drop (i + 3) hlsFiles) (sleep 3000 w1) of
             (others, w'') \<Rightarrow> (br @ others, w''))"
        using nshort b d by (subst in_batches_of_three.simps) simp
      with lhs ih long show ?thesis
        by (simp split: prod.splits)
    qed
  qed
qed

lemma bot_send_script:
  assumes "bot_send api d w = (r, w1)"
  shows "script w1 = tl (script w) \<and> calls w1 = calls w @ [api] \<and> slept w1 = slept w
    \<and> (case r of Inl m \<Rightarrow> script w = Some m # tl (script w)
        | Inr x \<Rightarrow> filter rate_limited_outcome (take 1 (script w)) = [])"
proof (cases "script w")
  case Nil
  with assms show ?thesis
    by (auto simp: bot_send_def next_outcome_def)
next
  case (Cons x xs)
  with assms show ?thesis
    by (cases x) (auto simp: bot_send_def next_outcome_def rate_limited_outcome_def)
qed

lemma issue_effects:
  assumes "issue hf r w = (s, w')" and "r < 3"
  shows "(\<exists>outcome. s = Waiting hf r outcome) \<and> script w' = drop 1 (script w)
    \<and> calls w' = calls w @ replicate 1 SendDocument \<and> slept w' = slept w
    \<and> owed s = length (filter rate_limited_outcome (take 1 (script w)))"
proof -
  obtain r1 w1 where b: "bot_send SendDocument (file_content hf) w = (r1, w1)"
    by (cases "bot_send SendDocument (file_content hf) w")
  with assms have s: "s = Waiting hf r r1" and w: "w' = w1"
    by (simp_all add: issue_def)
  note bs = bot_send_script [OF b]
  have o: "owed s = length (filter rate_limited_outcome (take 1 (script w)))"
  proof (cases r1)
    case (Inl m)
    with bs have "script w = Some m # tl (script w)"
      by simp
    then have "take 1 (script w) = [Some m]"
      by (metis One_nat_def take0 take_Suc_Cons)
    with s Inl show ?thesis
      by (simp add: rate_limited_outcome_def)
  next
    case (Inr x)
    with bs s show ?thesis
      by simp
  qed
  from s w bs o show ?thesis
    by (simp add: drop_Suc)
qed

lemma slot_step_effects:
  assumes "slot_step s w = (s', w')"
  shows "\<exists>j new. script w' = drop j (script w) \<and> calls w' = calls w @ replicate j SendDocument
    \<and> slept w' = slept w @ new \<and> set new \<subseteq> {45000}
    \<and> length new + owed s' = length (filter rate_limited_outcome (take j (script w))) + owed s
    \<and> j + budget s' \<le> budget s
    \<and> (slot_for hf s \<longrightarrow> slot_for hf s')"
proof -
  have quiet: "w' = w \<Longrightarrow> owed s' = owed s \<Longrightarrow> budget s' \<le> budget s
      \<Longrightarrow> (slot_for hf s \<longrightarrow> slot_for hf s') \<Longrightarrow> ?thesis"
  proof -
    assume "w' = w" and "owed s' = owed s" and "budget s' \<le> budget s"
      and "slot_for hf s \<longrightarrow> slot_for hf s'"
    then have "script w' = drop 0 (script w) \<and> calls w' = calls w @ replicate 0 SendDocument
      \<and> slept w' = slept w @ [] \<and> set [] \<subseteq> {45000::nat}
      \<and> length ([]::nat list) + owed s' = length (filter rate_limited_outcome (take 0 (script w))) + owed s
      \<and> 0 + budget s' \<le> budget s
      \<and> (slot_for hf s \<longrightarrow> slot_for hf s')"
      by simp
    then show ?thesis
      by blast
  qed
  show ?thesis
  proof (cases s)
    case (Settled r)
    with assms show ?thesis
      by (intro quiet) auto
  next
    case (Waiting f r outcome)
    show ?thesis
    proof (cases outcome)
      case (Inr m)
      with assms Waiting show ?thesis
        by (intro quiet) auto
    next
      case (Inl m)
      show ?thesis
      proof (cases "rate_limited m")
        case False
        with assms Waiting Inl show ?thesis
          by (intro quiet) auto
      next
        case True
        with assms Waiting Inl have e: "s' = Sleeping f r m" "w' = sleep 45000 w"
          by simp_all
        with Waiting Inl True
        have "script w' = drop 0 (script w) \<and> calls w' = calls w @ replicate 0 SendDocument
          \<and> slept w' = slept w @ [45000] \<and> set [45000] \<subseteq> {45000::nat}
          \<and> length [45000::nat] + owed s' = length (filter rate_limited_outcome (take 0 (script w))) + owed s
          \<and> 0 + budget s' \<le> budget s
          \<and> (slot_for hf s \<longrightarrow> slot_for hf s')"
          by (simp add: sleep_def)
        then show ?thesis
          by blast
      qed
    qed
  next
    case (Sleeping f r m)
    show ?thesis
    proof (cases "Suc r < 3")
      case False
      with assms Sleeping show ?thesis
        by (intro quiet) auto
    next
      case True
      with assms Sleeping have i: "issue f (Suc r) w = (s', w')"
        by simp
      from issue_effects [OF i True] obtain outcome where s': "s' = Waiting f (Suc r) outcome"
        and e: "script w' = drop 1 (script w)" "calls w' = calls w @ replicate 1 SendDocument"
          "slept w' = slept w"
          "owed s' = length (filter rate_limited_outcome (take 1 (script w)))"
        by blast
      from s' e Sleeping True
      have "script w' = drop 1 (script w) \<and> calls w' = calls w @ replicate 1 SendDocument
          \<and> slept w' = slept w @ [] \<and> set [] \<subseteq> {45000::nat}
          \<and> length ([]::nat list) + owed s' = length (filter rate_limited_outcome (take 1 (script w))) + owed s
          \<and> 1 + budget s' \<le> budget s
          \<and> (slot_for hf s \<longrightarrow> slot_for hf s')"
        by simp
      then show ?thesis
        by blast
    qed
  qed
qed

lemma sum_list_map_update:
  fixes f :: "'a \<Rightarrow> nat"
  shows "n < length xs \<Longrightarrow> sum_list (map f (xs[n := y])) + f (xs ! n) = sum_list (map f xs) + f y"
  by (induction xs arbitrary: n) (auto split: nat.splits)

lemma pick_pending:
  assumes "\<not> list_all settled slots"
  shows "pick schedule slots w < length slots \<and> \<not> settled (slots ! pick schedule slots w)"
proof -
  have "dropWhile settled slots \<noteq> []"
    using assms by (simp add: dropWhile_eq_Nil_conv list_all_iff)
  moreover have "length (takeWhile settled slots) + length (dropWhile settled slots) = length slots"
    by (metis length_append takeWhile_dropWhile_id)
  ultimately have fst: "length (takeWhile settled slots) < length slots"
    by (cases "dropWhile settled slots") auto
  with nth_length_takeWhile [OF fst] show ?thesis
    by (auto simp: pick_def)
qed

lemma settled_results:
  "list_all settled slots \<Longrightarrow> list_all2 slot_for fs slots \<Longrightarrow>
     list_all2 result_for fs (concat (map results_of slots)) \<and> sum_list (map owed slots) = 0"
proof (induction slots arbitrary: fs)
  case Nil
  then show ?case by simp
next
  case (Cons s slots)
  from Cons.prems(2) obtain f fs' where fs: "fs = f # fs'" "slot_for f s" "list_all2 slot_for fs' slots"
    by (auto simp: list_all2_Cons2)
  from Cons.prems(1) obtain r where s: "s = Settled r" and rest: "list_all settled slots"
    by (cases s) auto
  from Cons.IH [OF rest fs(3)] fs s show ?case
    by simp
qed

lemma settle_batch_effects:
  "settle_batch schedule slots w = (rs, w') \<Longrightarrow> list_all2 slot_for fs slots \<Longrightarrow>
    \<exists>j new. script w' = drop j (script w) \<and> calls w' = calls w @ replicate j SendDocument
      \<and> slept w' = slept w @ new \<and> set new \<subseteq> {45000}
      \<and> length new = length (filter rate_limited_outcome (take j (script w))) + sum_list (map owed slots)
      \<and> j \<le> sum_list (map budget slots)
      \<and> list_all2 result_for fs rs"
proof (induction schedule slots w rule: settle_batch.induct)
  case (1 schedule slots w)
  note run = "1.prems"(1) and inv = "1.prems"(2)
  show ?case
  proof (cases "list_all settled slots")
    case True
    with run have e: "rs = concat (map results_of slots)" "w' = w"
      by (subst (asm) settle_batch.simps, simp)+
    from settled_results [OF True inv] e
    have "script w' = drop 0 (script w) \<and> calls w' = calls w @ replicate 0 SendDocument
      \<and> slept w' = slept w @ [] \<and> set [] \<subseteq> {45000::nat}
      \<and> length ([]::nat list) = length (filter rate_limited_outcome (take 0 (script w))) + sum_list (map owed slots)
      \<and> 0 \<le> sum_list (map budget slots)
      \<and> list_all2 result_for fs rs"
      by simp
    then show ?thesis
      by blast
  next
    case False
    let ?n = "pick schedule slots w"
    from pick_pending [OF False] have n: "?n < length slots"
      by blast
    obtain s w1 where st: "slot_step (slots ! ?n) w = (s, w1)"
      by (cases "slot_step (slots ! ?n) w")
    from run False st have rest: "settle_batch schedule (slots[?n := s]) w1 = (rs, w')"
      by (subst (asm) settle_batch.simps) simp
    from inv n have nf: "?n < length fs" and sf: "slot_for (fs ! ?n) (slots ! ?n)"
      by (simp_all add: list_all2_lengthD list_all2_nthD2)
    from slot_step_effects [OF st, of "fs ! ?n"] sf obtain j1 n1
      where a: "script w1 = drop j1 (script w)" "calls w1 = calls w @ replicate j1 SendDocument"
        "slept w1 = slept w @ n1" "set n1 \<subseteq> {45000}"
        and a5: "length n1 + owed s = length (filter rate_limited_outcome (take j1 (script w))) + owed (slots ! ?n)"
        and a6: "j1 + budget s \<le> budget (slots ! ?n)"
        and a7: "slot_for (fs ! ?n) s"
      by blast
    have "list_all2 slot_for (fs[?n := fs ! ?n]) (slots[?n := s])"
      using inv a7 by (rule list_all2_update_cong)
    then have inv': "list_all2 slot_for fs (slots[?n := s])"
      by simp
    from "1.IH" [OF False st [symmetric] rest inv'] obtain j2 n2
      where b: "script w' = drop j2 (script w1)" "calls w' = calls w1 @ replicate j2 SendDocument"
        "slept w' = slept w1 @ n2" "set n2 \<subseteq> {45000}"
        and b5: "length n2 = length (filter rate_limited_outcome (take j2 (script w1)))
            + sum_list (map owed (slots[?n := s]))"
        and b6: "j2 \<le> sum_list (map budget (slots[?n := s]))"
        and b7: "list_all2 result_for fs rs"
      by blast
    note so = sum_list_map_update [OF n, of owed s]
    note sb = sum_list_map_update [OF n, of budget s]
    have tk: "take (j1 + j2) (script w) = take j1 (script w) @ take j2 (drop j1 (script w))"
      by (rule take_add)
    have c1: "script w' = drop (j1 + j2) (script w)"
      using a b by (simp add: add.commute)
    have c2: "calls w' = calls w @ replicate (j1 + j2) SendDocument"
      using a b by (simp add: replicate_add)
    have c3: "slept w' = slept w @ (n1 @ n2)" "set (n1 @ n2) \<subseteq> {45000}"
      using a b by auto
    have c5: "length (n1 @ n2) = length (filter rate_limited_outcome (take (j1 + j2) (script w)))
        + sum_list (map owed slots)"
      unfolding tk using a5 b5 so a(1) by simp
    have c6: "j1 + j2 \<le> sum_list (map budget slots)"
      using a6 b6 sb by linarith
    from c1 c2 c3 c5 c6 b7 show ?thesis
      by blast
  qed
qed

lemma start_batch_effects:
  "start_batch fs w = (slots, w') \<Longrightarrow>
     script w' = drop (length fs) (script w)
     \<and> calls w' = calls w @ replicate (length fs) SendDocument
     \<and> slept w' = slept w
     \<and> sum_list (map owed slots) = length (filter rate_limited_outcome (take (length fs) (script w)))
     \<and> sum_list (map budget slots) = 2 * length fs
     \<and> list_all2 slot_for fs slots"
proof (induction fs arbitrary: w slots w')
  case Nil
  then show ?case by auto
next
  case (Cons hf fs)
  obtain s w1 where i: "issue hf 0 w = (s, w1)"
    by (cases "issue hf 0 w")
  obtain ss w2 where r: "start_batch fs w1 = (ss, w2)"
    by (cases "start_batch fs w1")
  from Cons.prems i r have eq: "slots = s # ss" "w' = w2"
    by simp_all
  have z: "(0::nat) < 3"
    by simp
  from issue_effects [OF i z] obtain outcome where s: "s = Waiting hf 0 outcome"
    and e: "script w1 = drop 1 (script w)" "calls w1 = calls w @ replicate 1 SendDocument"
      "slept w1 = slept w" "owed s = length (filter rate_limited_outcome (take 1 (script w)))"
    by blast
  note ih = Cons.IH [OF r]
  have tk: "take (1 + length fs) (script w) = take 1 (script w) @ take (length fs) (drop 1 (script w))"
    by (rule take_add)
  have c1: "script w' = drop (length (hf # fs)) (script w)"
    using ih e eq by (simp add: add.commute)
  have c2: "calls w' = calls w @ replicate (length (hf # fs)) SendDocument"
    using ih e eq by (simp add: replicate_app_Cons_same)
  have c3: "slept w' = slept w"
    using ih e eq by simp
  have c4: "sum_list (map owed slots) = length (filter rate_limited_outcome (take (length (hf # fs)) (script w)))"
    using ih e eq tk by simp
  have c5: "sum_list (map budget slots) = 2 * length (hf # fs)"
    using ih eq s by simp
  have c6: "list_all2 slot_for (hf # fs) slots"
    using ih eq s by simp
  from c1 c2 c3 c4 c5 c6 show ?case
    by blast
qed

lemma hls_effects_refl: "hls_effects w w 0 []"
  by (simp add: hls_effects_def)

lemma hls_effects_sleep: "hls_effects w w' j new \<Longrightarrow> hls_effects w (sleep 3000 w') j (new @ [3000])"
  by (simp add: hls_effects_def sleep_def)

lemma hls_effects_trans:
  assumes "hls_effects w w1 j1 n1" and "hls_effects w1 w2 j2 n2"
  shows "hls_effects w w2 (j1 + j2) (n1 @ n2)"
proof -
  have "take (j1 + j2) (script w) = take j1 (script w) @ take j2 (drop j1 (script w))"
    by (rule take_add)
  with assms show ?thesis
    by (auto simp: hls_effects_def add.commute replicate_add)
qed

lemma upload_batch_effects:
  assumes "upload_batch schedule fs w = (rs, w')"
  shows "\<exists>j new. hls_effects w w' j new \<and> length fs \<le> j \<and> j \<le> 3 * length fs
       \<and> list_all2 result_for fs rs \<and> filter (\<lambda>ms. ms = 3000) new = []"
proof -
  obtain slots w1 where sb: "start_batch fs w = (slots, w1)"
    by (cases "start_batch fs w")
  with assms have st: "settle_batch schedule slots w1 = (rs, w')"
    by (simp add: upload_batch_def)
  note a = start_batch_effects [OF sb]
  from a have inv: "list_all2 slot_for fs slots"
    by simp
  from settle_batch_effects [OF st inv] obtain j2 new
    where b: "script w' = drop j2 (script w1)" "calls w' = calls w1 @ replicate j2 SendDocument"
      "slept w' = slept w1 @ new" "set new \<subseteq> {45000}"
      and b5: "length new = length (filter rate_limited_outcome (take j2 (script w1)))
          + sum_list (map owed slots)"
      and b6: "j2 \<le> sum_list (map budget slots)"
      and b7: "list_all2 result_for fs rs"
    by blast
  let ?j = "length fs + j2"
  have tk: "take ?j (script w) = take (length fs) (script w) @ take j2 (drop (length fs) (script w))"
    by (rule take_add)
  have f45: "filter (\<lambda>ms. ms = 45000) new = new"
    using b(4) by (auto simp: filter_id_conv)
  have f3: "filter (\<lambda>ms. ms = 3000) new = []"
    using b(4) by (auto simp: filter_empty_conv)
  have h1: "script w' = drop ?j (script w)"
    using a b by (simp add: add.commute)
  have h2: "calls w' = calls w @ replicate ?j SendDocument"
    using a b by (simp add: replicate_add)
  have h3: "slept w' = slept w @ new" "set new \<subseteq> {3000, 45000}"
    using a b by auto
  have h5: "length (filter (\<lambda>ms. ms = 45000) new)
      = length (filter rate_limited_outcome (take ?j (script w)))"
    unfolding f45 tk using a b5 by simp
  have "hls_effects w w' ?j new"
    unfolding hls_effects_def using h1 h2 h3 h5 by (intro conjI)
  moreover have "length fs \<le> ?j" "?j \<le> 3 * length fs"
    using a b6 by simp_all
  ultimately show ?thesis
    using b7 f3 by blast
qed

lemma in_batches_of_three_effects:
  "in_batches_of_three schedule fs w = (rs, w') \<Longrightarrow>
     \<exists>j new. hls_effects w w' j new \<and> length fs \<le> j \<and> j \<le> 3 * length fs
       \<and> list_all2 result_for fs rs
       \<and> length (filter (\<lambda>ms. ms = 3000) new) = (length fs - 1) div 3"
proof (induction schedule fs w arbitrary: rs w' rule: in_batches_of_three.induct)
  case (1 schedule fs w)
  show ?case
  proof (cases "length fs \<le> 3")
    case True
    with "1.prems" have "upload_batch schedule fs w = (rs, w')"
      by (subst (asm) in_batches_of_three.simps) simp
    from upload_batch_effects [OF this] obtain j new
      where e: "hls_effects w w' j new" "length fs \<le> j" "j \<le> 3 * length fs"
        "list_all2 result_for fs rs" "filter (\<lambda>ms. ms = 3000) new = []"
      by blast
    from True have "(length fs - 1) div 3 = 0"
      by simp
    with e show ?thesis
      by fastforce
  next
    case False
    obtain first w1 where b: "upload_batch schedule (take 3 fs) w = (first, w1)"
      by (cases "upload_batch schedule (take 3 fs) w")
    obtain others w2 where r: "in_batches_of_three schedule (drop 3 fs) (sleep 3000 w1) = (others, w2)"
      by (cases "in_batches_of_three schedule (drop 3 fs) (sleep 3000 w1)")
    from "1.prems" False b r have eq: "rs = first @ others" "w' = w2"
      by (subst (asm) in_batches_of_three.simps, simp)+
    from upload_batch_effects [OF b] obtain j1 n1
      where e1: "hls_effects w w1 j1 n1" "length (take 3 fs) \<le> j1" "j1 \<le> 3 * length (take 3 fs)"
        "list_all2 result_for (take 3 fs) first" "filter (\<lambda>ms. ms = 3000) n1 = []"
      by blast
    from "1.IH" [OF False b [symmetric] r] obtain j2 n2
      where e2: "hls_effects (sleep 3000 w1) w2 j2 n2" "length (drop 3 fs) \<le> j2"
        "j2 \<le> 3 * length (drop 3 fs)" "list_all2 result_for (drop 3 fs) others"
        "length (filter (\<lambda>ms. ms = 3000) n2) = (length (drop 3 fs) - 1) div 3"
      by blast
    have "hls_effects w w' (j1 + j2) ((n1 @ [3000]) @ n2)"
      using hls_effects_trans [OF hls_effects_sleep [OF e1(1)] e2(1)] eq by simp
    moreover have "length fs \<le> j1 + j2" "j1 + j2 \<le> 3 * length fs"
      using e1 e2 False by simp_all
    moreover have "list_all2 result_for (take 3 fs @ drop 3 fs) (first @ others)"
      using e1(4) e2(4) by (rule list_all2_appendI)
    then have "list_all2 result_for fs rs"
      using eq by simp
    moreover have "length (filter (\<lambda>ms. ms = 3000) ((n1 @ [3000]) @ n2)) = (length fs - 1) div 3"
      using e1 e2 False by simp
    ultimately show ?thesis
      by blast
  qed
qed

lemma findHLSFiles_replicate:
  "findHLSFiles (replicate n (File ''s.ts'' [])) [] =
     replicate n \<lparr>relativePath = ''s.ts'', file_content = []\<rparr>"
  by (induction n) (simp_all add: path_join_def suffix_to_prefix)

lemmas hls_eval =
  uploadHLSFiles_def path_join_def suffix_to_prefix upload_batches.simps upload_batch_def
  settle_batch.simps pick_def issue_def bot_send_def next_outcome_def rate_limited_def sleep_def
  Let_def

text \<open>
  Claim C8. With more than 100 candidate files the bulk upload returns the "too many files"
  result and leaves the world as it was: no file is sent and nothing is slept. With 1 to
  100 files, and in whatever order the uploads of a batch go on, it runs the files in
  batches of three with a 3000 ms sleep between consecutive batches (it computes what
  \<open>in_batches_of_three\<close> computes, so the 3000 ms sleeps number one less than the batches),
  the results are those of the files in their order, each file is sent at least once and at
  most three times, and the 45000 ms sleeps are exactly as many as the rate-limit
  rejections the bot answered with; there are no other sleeps.
\<close>

theorem uploadHLSFiles_ceiling_and_batches:
  assumes "bot svc" and "hlsFiles = findHLSFiles entries []"
  shows "(100 < length hlsFiles \<longrightarrow>
            uploadHLSFiles schedule svc (Some entries) w =
              (HlsNotUploaded ''Too many HLS files - would exceed Telegram rate limits''
                 (Some (length hlsFiles)), w))
    \<and> (0 < length hlsFiles \<and> length hlsFiles \<le> 100 \<longrightarrow>
         (\<exists>results w' j new.
            uploadHLSFiles schedule svc (Some entries) w =
              (HlsBatch (0 < length (filter hls_uploaded results)) (length hlsFiles)
                 (length (filter hls_uploaded results)) results, w')
            \<and> in_batches_of_three schedule hlsFiles w = (results, w')
            \<and> length results = length hlsFiles
            \<and> list_all2 result_for hlsFiles results
            \<and> length hlsFiles \<le> j \<and> j \<le> 3 * length hlsFiles
            \<and> script w' = drop j (script w)
            \<and> calls w' = calls w @ replicate j SendDocument
            \<and> slept w' = slept w @ new \<and> set new \<subseteq> {3000, 45000}
            \<and> length (filter (\<lambda>ms. ms = 3000) new) = (length hlsFiles - 1) div 3
            \<and> length (filter (\<lambda>ms. ms = 45000) new)
                = length (filter rate_limited_outcome (take j (script w)))))"
proof (intro conjI impI)
  assume "100 < length hlsFiles"
  with assms show "uploadHLSFiles schedule svc (Some entries) w =
      (HlsNotUploaded ''Too many HLS files - would exceed Telegram rate limits''
         (Some (length hlsFiles)), w)"
    by (auto simp: uploadHLSFiles_def Let_def)
next
  assume range: "0 < length hlsFiles \<and> length hlsFiles \<le> 100"
  obtain results w' where run: "in_batches_of_three schedule hlsFiles w = (results, w')"
    by (cases "in_batches_of_three schedule hlsFiles w")
  then have loop: "upload_batches schedule hlsFiles 0 [] w = (results, w')"
    by (simp add: upload_batches_refines)
  have res: "uploadHLSFiles schedule svc (Some entries) w =
      (HlsBatch (0 < length (filter hls_uploaded results)) (length hlsFiles)
         (length (filter hls_uploaded results)) results, w')"
    using assms range loop by (simp add: uploadHLSFiles_def Let_def)
  from in_batches_of_three_effects [OF run] obtain j new
    where e: "hls_effects w w' j new" and b: "length hlsFiles \<le> j" "j \<le> 3 * length hlsFiles"
      and l2: "list_all2 result_for hlsFiles results"
      and t: "length (filter (\<lambda>ms. ms = 3000) new) = (length hlsFiles - 1) div 3"
    by blast
  from l2 have l: "length results = length hlsFiles"
    by (simp add: list_all2_lengthD)
  from e have f: "script w' = drop j (script w)" "calls w' = calls w @ replicate j SendDocument"
    "slept w' = slept w @ new" "set new \<subseteq> {3000, 45000}"
    "length (filter (\<lambda>ms. ms = 45000) new) = length (filter rate_limited_outcome (take j (script w)))"
    by (simp_all add: hls_effects_def)
  from res run l l2 b f t show "\<exists>results w' j new.
            uploadHLSFiles schedule svc (Some entries) w =
              (HlsBatch (0 < length (filter hls_uploaded results)) (length hlsFiles)
                 (length (filter hls_uploaded results)) results, w')
            \<and> in_batches_of_three schedule hlsFiles w = (results, w')
            \<and> length results = length hlsFiles
            \<and> list_all2 result_for hlsFiles results
            \<and> length hlsFiles \<le> j \<and> j \<le> 3 * length hlsFiles
            \<and> script w' = drop j (script w)
            \<and> calls w' = calls w @ replicate j SendDocument
            \<and> slept w' = slept w @ new \<and> set new \<subseteq> {3000, 45000}
            \<and> length (filter (\<lambda>ms. ms = 3000) new) = (length hlsFiles - 1) div 3
            \<and> length (filter (\<lambda>ms. ms = 45000) new)
                = length (filter rate_limited_outcome (take j (script w)))"
    by blast
qed

theorem uploadHLSFiles_ceiling_and_batches_witness:
  "bot (new_TelegramService True)
   \<and> 100 < length (findHLSFiles (replicate 101 (File ''s.ts'' [])) [])
   \<and> uploadHLSFiles first_pending (new_TelegramService True)
        (Some (replicate 101 (File ''s.ts'' []))) ex_hls_world
       = (HlsNotUploaded ''Too many HLS files - would exceed Telegram rate limits'' (Some 101),
          ex_hls_world)
   \<and> 0 < length (findHLSFiles ex_hls_dir []) \<and> length (findHLSFiles ex_hls_dir []) \<le> 100
   \<and> length (findHLSFiles ex_hls_dir []) = 4
   \<and> fst (in_batches_of_three first_pending (findHLSFiles ex_hls_dir []) ex_hls_world)
       = [HlsUploaded ''playlist.m3u8'' 1 1, HlsUploaded ''720p/playlist.m3u8'' 0 0,
          HlsFailed ''720p/segment_000.ts'' ''socket hang up'', HlsUploaded ''segment_000.ts'' 2 2]
   \<and> slept (snd (in_batches_of_three first_pending (findHLSFiles ex_hls_dir []) ex_hls_world))
       = [45000, 3000]
   \<and> calls (snd (in_batches_of_three first_pending (findHLSFiles ex_hls_dir []) ex_hls_world))
       = [SendDocument, SendDocument, SendDocument, SendDocument, SendDocument]
   \<and> fst (uploadHLSFiles first_pending (new_TelegramService True) (Some ex_hls_dir) ex_hls_world)
       = HlsBatch True 4 3
           (fst (in_batches_of_three first_pending (findHLSFiles ex_hls_dir []) ex_hls_world))"
proof -
  let ?svc = "new_TelegramService True"
  let ?big = "replicate 101 (File ''s.ts'' [])"
  let ?fs = "findHLSFiles ex_hls_dir []"
  have h1: "bot ?svc"
    by (simp add: new_TelegramService_def)
  have h2: "findHLSFiles ?big [] = findHLSFiles ?big []"
    by (rule refl)
  have h3: "100 < length (findHLSFiles ?big [])"
    by (simp add: findHLSFiles_replicate)
  have n: "length (findHLSFiles ?big []) = 101"
    by (simp add: findHLSFiles_replicate)
  from uploadHLSFiles_ceiling_and_batches [OF h1 h2, of first_pending ex_hls_world] h3
  have c1: "uploadHLSFiles first_pending ?svc (Some ?big) ex_hls_world
       = (HlsNotUploaded ''Too many HLS files - would exceed Telegram rate limits'' (Some 101),
          ex_hls_world)"
    unfolding n by blast
  have fs: "?fs = [\<lparr>relativePath = ''playlist.m3u8'', file_content = [1]\<rparr>,
      \<lparr>relativePath = ''720p/playlist.m3u8'', file_content = [2]\<rparr>,
      \<lparr>relativePath = ''720p/segment_000.ts'', file_content = [3]\<rparr>,
      \<lparr>relativePath = ''segment_000.ts'', file_content = [5]\<rparr>]"
    by (simp add: ex_hls_dir_def path_join_def suffix_to_prefix)
  have g1: "0 < length ?fs \<and> length ?fs \<le> 100"
    by (simp add: fs)
  have g2: "length ?fs = 4"
    by (simp add: fs)
  have g3: "?fs = findHLSFiles ex_hls_dir []"
    by (rule refl)
  from uploadHLSFiles_ceiling_and_batches [OF h1 g3, of first_pending ex_hls_world] g1
  obtain results w' where r: "uploadHLSFiles first_pending ?svc (Some ex_hls_dir) ex_hls_world =
      (HlsBatch (0 < length (filter hls_uploaded results)) (length ?fs)
         (length (filter hls_uploaded results)) results, w')"
    and b: "in_batches_of_three first_pending ?fs ex_hls_world = (results, w')"
    by blast
  have run: "in_batches_of_three first_pending ?fs ex_hls_world =
     ([HlsUploaded ''playlist.m3u8'' 1 1, HlsUploaded ''720p/playlist.m3u8'' 0 0,
       HlsFailed ''720p/segment_000.ts'' ''socket hang up'', HlsUploaded ''segment_000.ts'' 2 2],
      \<lparr>files = Map.empty, objects = [[2], [1], [5]], script = [],
       calls = [SendDocument, SendDocument, SendDocument, SendDocument, SendDocument],
       slept = [45000, 3000]\<rparr>)"
    unfolding fs
    by (simp add: in_batches_of_three.simps ex_hls_world_def first_pending_def hls_eval)
  have ev: "fst (in_batches_of_three first_pending ?fs ex_hls_world)
       = [HlsUploaded ''playlist.m3u8'' 1 1, HlsUploaded ''720p/playlist.m3u8'' 0 0,
          HlsFailed ''720p/segment_000.ts'' ''socket hang up'', HlsUploaded ''segment_000.ts'' 2 2]"
    by (simp add: run)
  have sl: "slept (snd (in_batches_of_three first_pending ?fs ex_hls_world)) = [45000, 3000]"
    by (simp add: run)
  have ca: "calls (snd (in_batches_of_three first_pending ?fs ex_hls_world))
       = [SendDocument, SendDocument, SendDocument, SendDocument, SendDocument]"
    by (simp add: run)
  from b ev have results: "results = [HlsUploaded ''playlist.m3u8'' 1 1,
      HlsUploaded ''720p/playlist.m3u8'' 0 0,
      HlsFailed ''720p/segment_000.ts'' ''socket hang up'', HlsUploaded ''segment_000.ts'' 2 2]"
    by simp
  have c2: "fst (uploadHLSFiles first_pending ?svc (Some ex_hls_dir) ex_hls_world)
       = HlsBatch True 4 3 (fst (in_batches_of_three first_pending ?fs ex_hls_world))"
    unfolding r b g2 by (simp add: results)
  from h1 h3 c1 g1 g2 ev sl ca c2 show ?thesis
    by (intro conjI) simp_all
qed

text \<open>
  The order in which the uploads of a batch go on decides which of them meets which answer
  of the bot: with three rate-limit rejections followed by two other errors, one file of the
  batch is uploaded after six calls and three sleeps, the last file under one order and the
  first under the other.
\<close>

lemma uploadHLSFiles_rate_limited_batch:
  "uploadHLSFiles first_pending (new_TelegramService True) (Some ex_three_segments)
       ex_rate_limited_world =
     (HlsBatch True 3 1 [HlsFailed ''a.ts'' ''x'', HlsFailed ''b.ts'' ''x'', HlsUploaded ''c.ts'' 0 0],
      \<lparr>files = Map.empty, objects = [[3]], script = [],
       calls = [SendDocument, SendDocument, SendDocument, SendDocument, SendDocument, SendDocument],
       slept = [45000, 45000, 45000]\<rparr>)
   \<and> uploadHLSFiles last_pending (new_TelegramService True) (Some ex_three_segments)
       ex_rate_limited_world =
     (HlsBatch True 3 1 [HlsUploaded ''a.ts'' 0 0, HlsFailed ''b.ts'' ''x'', HlsFailed ''c.ts'' ''x''],
      \<lparr>files = Map.empty, objects = [[1]], script = [],
       calls = [SendDocument, SendDocument, SendDocument, SendDocument, SendDocument, SendDocument],
       slept = [45000, 45000, 45000]\<rparr>)"
  by (simp add: ex_three_segments_def ex_rate_limited_world_def new_TelegramService_def
      first_pending_def last_pending_def hls_eval)

subsection \<open>The traversal check of the HLS handler\<close>

text \<open>
  Claim C10, at a request the check lets through. For the video \<^verbatim>\<open>abc\<close> and the subpath
  \<^verbatim>\<open>../abcd/playlist.m3u8\<close> the joined path is \<^verbatim>\<open>/app/hls/abcd/playlist.m3u8\<close>. It is not
  inside \<^verbatim>\<open>/app/hls/abc\<close>, yet it starts with that string, so \<^verbatim>\<open>startsWith\<close> accepts it:
  the handler streams the file when it exists and answers 404 when it does not, and 403 in
  neither case.
\<close>

theorem hls_handler_sibling_prefix:
  "path_join_all [''/app'', ''hls'', ''abc''] = ''/app/hls/abc''
   \<and> path_join_all [''/app/hls/abc'', ''../abcd/playlist.m3u8''] = ''/app/hls/abcd/playlist.m3u8''
   \<and> \<not> inside_dir ''/app/hls/abc'' ''/app/hls/abcd/playlist.m3u8''
   \<and> hls_handler ''/app'' True (\<lambda>p. p = ''/app/hls/abcd/playlist.m3u8'') ''abc''
         ''../abcd/playlist.m3u8''
       = StreamFile ''/app/hls/abcd/playlist.m3u8'' ''application/vnd.apple.mpegurl''
   \<and> hls_handler ''/app'' True (\<lambda>p. False) ''abc'' ''../abcd/playlist.m3u8''
       = Json 404 ''HLS file not found''"
  by code_simp

subsection \<open>Range handling of the stream endpoint\<close>
















subsection \<open>Fallbacks of the audio track endpoint\<close>

text \<open>
  Claim C3 as stated fails for a track index that is not among the video's extracted audio
  files: the stored video has a main manifest and the tracks 0 and 1, and the request for
  track 5 is answered 404.
\<close>

theorem audio_track_not_listed:
  "truthy (hlsPlaylist ex_video)
   \<and> audio_handler ''abc'' (Some 5) (Inr (Some ex_video)) (CloudThrows ''unused'') None False
       = Json 404 ''Audio track not found''"
  by (simp add: audio_handler_def find_track_def ex_video_def truthy_def)

text \<open>
  A track index that is among the extracted audio files, with the main manifest existing.
\<close>

lemma audio_track_listed:
  assumes "lookup = Inr (Some v)"
    and "find_track v parsedTrackIndex = Some audioTrack"
    and "truthy (hlsPlaylist v)"
    and "\<not> (ea_uploaded audioTrack \<and> cloud = CloudErrorBeforeHeaders \<and> \<not> truthy (ea_hlsUrl audioTrack))"
  shows "(\<forall>status message.
            audio_handler videoId parsedTrackIndex lookup cloud rangeHeader localPlaylist
              \<noteq> Json status message)
     \<and> ((\<not> ea_uploaded audioTrack \<or> (\<exists>e. cloud = CloudThrows e))
          \<and> \<not> truthy (ea_hlsUrl audioTrack) \<and> \<not> localPlaylist \<longrightarrow>
            audio_handler videoId parsedTrackIndex lookup cloud rangeHeader localPlaylist
              = Redirect (''/api/hls/'' @ videoId @ ''/playlist.m3u8''))"
proof -
  let ?fallback = "if truthy (ea_hlsUrl audioTrack) then Redirect (the (ea_hlsUrl audioTrack))
      else if localPlaylist
      then Redirect (''/api/hls/'' @ videoId @ ''/audio/track_'' @ js_show parsedTrackIndex @ ''/playlist.m3u8'')
      else Redirect (''/api/hls/'' @ videoId @ ''/playlist.m3u8'')"
  have h: "audio_handler videoId parsedTrackIndex lookup cloud rangeHeader localPlaylist =
      (if ea_uploaded audioTrack then
         (case cloud of
            CloudThrows e \<Rightarrow> ?fallback
          | CloudPiped resultRange len \<Rightarrow>
              if truthy resultRange \<and> truthy rangeHeader
              then Piped 206 (Some (''bytes '' @ the resultRange @ ''/'' @ decimal len)) None
              else Piped 200 None (Some (decimal len))
          | CloudErrorBeforeHeaders \<Rightarrow> Redirect (the (ea_hlsUrl audioTrack)))
       else ?fallback)"
    using assms by (auto simp: audio_handler_def Let_def split: cloud_outcome.splits)
  have a: "\<forall>status message.
      audio_handler videoId parsedTrackIndex lookup cloud rangeHeader localPlaylist \<noteq> Json status message"
    unfolding h by (simp split: cloud_outcome.splits)
  have b: "(\<not> ea_uploaded audioTrack \<or> (\<exists>e. cloud = CloudThrows e))
          \<and> \<not> truthy (ea_hlsUrl audioTrack) \<and> \<not> localPlaylist \<longrightarrow>
            audio_handler videoId parsedTrackIndex lookup cloud rangeHeader localPlaylist
              = Redirect (''/api/hls/'' @ videoId @ ''/playlist.m3u8'')"
    unfolding h by auto
  from a b show ?thesis ..
qed

lemma find_track_None_iff:
  "find_track v parsedTrackIndex = None \<longleftrightarrow>
     (\<forall>tracks. extractedAudioFiles v = Some tracks \<longrightarrow>
        (\<forall>track \<in> set tracks. Some (ea_trackIndex track) \<noteq> parsedTrackIndex))"
  by (cases "extractedAudioFiles v") (auto simp: find_track_def find_None_iff)

text \<open>
  Claim C3, amended. For a request whose video is stored: a track index that is not among
  the video's extracted audio files (or a video without such a list) is answered 404
  "Audio track not found", whether or not the main manifest exists. A track index that is
  among them, with the main manifest existing, is never answered with a JSON error but with
  a redirect or the piped stream; and when the track has no cloud copy that can be opened,
  no HLS URL of its own and no local playlist, the answer is the redirect to the main
  manifest. The case left out is a cloud stream that breaks before any header was sent
  while the track has no HLS URL.
\<close>

theorem audio_track_fallback:
  assumes "lookup = Inr (Some v)"
  shows "((\<forall>tracks. extractedAudioFiles v = Some tracks \<longrightarrow>
             (\<forall>track \<in> set tracks. Some (ea_trackIndex track) \<noteq> parsedTrackIndex)) \<longrightarrow>
            audio_handler videoId parsedTrackIndex lookup cloud rangeHeader localPlaylist
              = Json 404 ''Audio track not found'')
     \<and> (\<forall>audioTrack.
           find_track v parsedTrackIndex = Some audioTrack \<and> truthy (hlsPlaylist v)
           \<and> \<not> (ea_uploaded audioTrack \<and> cloud = CloudErrorBeforeHeaders
                  \<and> \<not> truthy (ea_hlsUrl audioTrack)) \<longrightarrow>
             (\<forall>status message.
                audio_handler videoId parsedTrackIndex lookup cloud rangeHeader localPlaylist
                  \<noteq> Json status message)
             \<and> ((\<not> ea_uploaded audioTrack \<or> (\<exists>e. cloud = CloudThrows e))
                  \<and> \<not> truthy (ea_hlsUrl audioTrack) \<and> \<not> localPlaylist \<longrightarrow>
                    audio_handler videoId parsedTrackIndex lookup cloud rangeHeader localPlaylist
                      = Redirect (''/api/hls/'' @ videoId @ ''/playlist.m3u8'')))"
proof (intro conjI impI allI)
  assume "\<forall>tracks. extractedAudioFiles v = Some tracks \<longrightarrow>
             (\<forall>track \<in> set tracks. Some (ea_trackIndex track) \<noteq> parsedTrackIndex)"
  then have "find_track v parsedTrackIndex = None"
    by (simp add: find_track_None_iff)
  with assms show "audio_handler videoId parsedTrackIndex lookup cloud rangeHeader localPlaylist
              = Json 404 ''Audio track not found''"
    by (simp add: audio_handler_def)
next
  fix audioTrack status message
  assume a: "find_track v parsedTrackIndex = Some audioTrack \<and> truthy (hlsPlaylist v)
           \<and> \<not> (ea_uploaded audioTrack \<and> cloud = CloudErrorBeforeHeaders
                  \<and> \<not> truthy (ea_hlsUrl audioTrack))"
  then have f: "find_track v parsedTrackIndex = Some audioTrack" and t: "truthy (hlsPlaylist v)"
    and n: "\<not> (ea_uploaded audioTrack \<and> cloud = CloudErrorBeforeHeaders
                  \<and> \<not> truthy (ea_hlsUrl audioTrack))"
    by simp_all
  from audio_track_listed [OF assms f t n, of videoId rangeHeader localPlaylist]
  show "audio_handler videoId parsedTrackIndex lookup cloud rangeHeader localPlaylist
                  \<noteq> Json status message"
    by blast
next
  fix audioTrack
  assume a: "find_track v parsedTrackIndex = Some audioTrack \<and> truthy (hlsPlaylist v)
           \<and> \<not> (ea_uploaded audioTrack \<and> cloud = CloudErrorBeforeHeaders
                  \<and> \<not> truthy (ea_hlsUrl audioTrack))"
    and b: "(\<not> ea_uploaded audioTrack \<or> (\<exists>e. cloud = CloudThrows e))
                  \<and> \<not> truthy (ea_hlsUrl audioTrack) \<and> \<not> localPlaylist"
  from a have f: "find_track v parsedTrackIndex = Some audioTrack" and t: "truthy (hlsPlaylist v)"
    and n: "\<not> (ea_uploaded audioTrack \<and> cloud = CloudErrorBeforeHeaders
                  \<and> \<not> truthy (ea_hlsUrl audioTrack))"
    by simp_all
  from audio_track_listed [OF assms f t n, of videoId rangeHeader localPlaylist] b
  show "audio_handler videoId parsedTrackIndex lookup cloud rangeHeader localPlaylist
                      = Redirect (''/api/hls/'' @ videoId @ ''/playlist.m3u8'')"
    by blast
qed

theorem audio_track_fallback_witness:
  "audio_handler ''abc'' (Some 7) (Inr (Some ex_video)) (CloudThrows ''unused'') None False
       = Json 404 ''Audio track not found''
   \<and> find_track ex_video (Some 1) = Some \<lparr>ea_trackIndex = 1, ea_uploaded = False, ea_hlsUrl = None\<rparr>
   \<and> truthy (hlsPlaylist ex_video)
   \<and> audio_handler ''abc'' (Some 1) (Inr (Some ex_video)) (CloudThrows ''unused'') None False
       = Redirect ''/api/hls/abc/playlist.m3u8''"
proof -
  let ?t = "\<lparr>ea_trackIndex = 1, ea_uploaded = False, ea_hlsUrl = None\<rparr>"
  have h1: "(Inr (Some ex_video) :: string + video_record option) = Inr (Some ex_video)"
    by (rule refl)
  have g: "\<forall>tracks. extractedAudioFiles ex_video = Some tracks \<longrightarrow>
             (\<forall>track \<in> set tracks. Some (ea_trackIndex track) \<noteq> Some 7)"
    by (simp add: ex_video_def)
  from audio_track_fallback [OF h1, of "Some 7" "''abc''" "CloudThrows ''unused''" None False] g
  have r0: "audio_handler ''abc'' (Some 7) (Inr (Some ex_video)) (CloudThrows ''unused'') None False
      = Json 404 ''Audio track not found''"
    by blast
  have h2: "find_track ex_video (Some 1) = Some ?t"
    by (simp add: find_track_def ex_video_def)
  have h3: "truthy (hlsPlaylist ex_video)"
    by (simp add: ex_video_def truthy_def)
  have h4: "\<not> (ea_uploaded ?t \<and> CloudThrows ''unused'' = CloudErrorBeforeHeaders \<and> \<not> truthy (ea_hlsUrl ?t))"
    by simp
  have c: "(\<not> ea_uploaded ?t \<or> (\<exists>e. CloudThrows ''unused'' = CloudThrows e))
      \<and> \<not> truthy (ea_hlsUrl ?t) \<and> \<not> False"
    by (simp add: truthy_def)
  from audio_track_fallback [OF h1, of "Some 1" "''abc''" "CloudThrows ''unused''" None False]
    h2 h3 h4 c
  have "audio_handler ''abc'' (Some 1) (Inr (Some ex_video)) (CloudThrows ''unused'') None False
      = Redirect (''/api/hls/'' @ ''abc'' @ ''/playlist.m3u8'')"
    by blast
  then have r1: "audio_handler ''abc'' (Some 1) (Inr (Some ex_video)) (CloudThrows ''unused'') None False
      = Redirect ''/api/hls/abc/playlist.m3u8''"
    by simp
  from r0 h2 h3 r1 show ?thesis
    by (intro conjI)
qed

subsection \<open>Completion flag of the background task\<close>

lemma store_call_quiet:
  assumes "store_script db = []" and "\<And>d. store_script (change d) = store_script d"
  shows "store_call change db = (Inr (), snd (store_call change db))
    \<and> store_script (snd (store_call change db)) = []
    \<and> processingStatus (snd (store_call change db)) = processingStatus (change db)"
  using assms by (simp add: store_call_def)

lemma set_status_quiet:
  assumes "store_script db = []"
  shows "set_status s db = (Inr (), snd (set_status s db))
    \<and> store_script (snd (set_status s db)) = []
    \<and> processingStatus (snd (set_status s db)) = s"
  unfolding set_status_def using store_call_quiet [OF assms, of "\<lambda>d. d\<lparr>processingStatus := s\<rparr>"]
  by simp

lemma report_progress_script: "store_script db = [] \<Longrightarrow> store_script (report_progress rs db) = []"
proof (induction rs arbitrary: db)
  case Nil
  then show ?case by simp
next
  case (Cons r rs)
  obtain progress stage where r: "r = (progress, stage)"
    by (cases r)
  show ?case
    unfolding r using Cons.IH set_status_quiet [OF Cons.prems] by (simp add: caught_def)
qed

lemma processing_failed_quiet:
  assumes "store_script db = []"
  shows "store_script (processing_failed message db) = []
    \<and> processingStatus (processing_failed message db) =
        \<lparr>telegramUploading = False, hlsProgress = 0, hlsStage = None,
         thumbnailGenerating = False, complete = False,
         errors = [''Video processing failed: '' @ message]\<rparr>"
  unfolding processing_failed_def caught_def using set_status_quiet [OF assms] by simp

lemma cleanup_local_quiet:
  assumes "store_script db = []"
  shows "cleanup_local env db = (Inr (), snd (cleanup_local env db))
    \<and> processingStatus (snd (cleanup_local env db)) = processingStatus db"
  unfolding cleanup_local_def using store_call_quiet [OF assms, of "\<lambda>d. d"] by simp

lemma background_task_quiet:
  assumes "store_script db = []"
    and "\<And>d. store_script d = [] \<Longrightarrow> store_script (process_video env d) = []"
  shows "\<exists>d. store_script d = []
    \<and> processingStatus (background_task env db) = processingStatus (process_video env d)"
proof -
  let ?s1 = "\<lparr>telegramUploading = False, hlsProgress = 0, hlsStage = None,
             thumbnailGenerating = True, complete = False, errors = []\<rparr>"
  let ?s2 = "\<lparr>telegramUploading = False, hlsProgress = 0, hlsStage = None,
             thumbnailGenerating = False, complete = False, errors = []\<rparr>"
  obtain r1 d1 where rd1: "set_status ?s1 db = (r1, d1)"
    by (cases "set_status ?s1 db")
  from set_status_quiet [OF assms(1), of ?s1] rd1
  have e1: "set_status ?s1 db = (Inr (), d1)" and q1: "store_script d1 = []"
    by simp_all
  obtain r2 d2 where rd2: "set_status ?s2 d1 = (r2, d2)"
    by (cases "set_status ?s2 d1")
  from set_status_quiet [OF q1, of ?s2] rd2
  have e2: "set_status ?s2 d1 = (Inr (), d2)" and q2: "store_script d2 = []"
    by simp_all
  have q3: "store_script (process_video env d2) = []"
    using assms(2) [OF q2] .
  obtain r4 d4 where rd4: "cleanup_local env (process_video env d2) = (r4, d4)"
    by (cases "cleanup_local env (process_video env d2)")
  from cleanup_local_quiet [OF q3, of env] rd4
  have e4: "cleanup_local env (process_video env d2) = (Inr (), d4)"
    and p4: "processingStatus d4 = processingStatus (process_video env d2)"
    by simp_all
  have "background_task env db = d4"
    by (simp add: background_task_def e1 e2 e4)
  with p4 q2 show ?thesis
    by auto
qed

lemma processing_throws_leaves_incomplete:
  assumes "processing env = Inl message" and "store_script db = []"
  shows "processingStatus (background_task env db) =
      \<lparr>telegramUploading = False, hlsProgress = 0, hlsStage = None,
       thumbnailGenerating = False, complete = False,
       errors = [''Video processing failed: '' @ message]\<rparr>"
proof -
  have pv: "\<And>d. store_script d = [] \<Longrightarrow>
      store_script (process_video env d) = []
      \<and> processingStatus (process_video env d) =
        \<lparr>telegramUploading = False, hlsProgress = 0, hlsStage = None,
         thumbnailGenerating = False, complete = False,
         errors = [''Video processing failed: '' @ message]\<rparr>"
  proof -
    fix d :: db_video
    assume "store_script d = []"
    then have "store_script (report_progress (reports env) d) = []"
      by (rule report_progress_script)
    from processing_failed_quiet [OF this, of message] assms(1)
    show "store_script (process_video env d) = []
      \<and> processingStatus (process_video env d) =
        \<lparr>telegramUploading = False, hlsProgress = 0, hlsStage = None,
         thumbnailGenerating = False, complete = False,
         errors = [''Video processing failed: '' @ message]\<rparr>"
      by (simp add: process_video_def Let_def)
  qed
  from background_task_quiet [OF assms(2), of env] pv obtain d
    where "store_script d = []"
      and "processingStatus (background_task env db) = processingStatus (process_video env d)"
    by blast
  with pv show ?thesis
    by simp
qed

lemma processing_succeeds_completes:
  assumes "processing env = Inr ()" and "store_script db = []"
  shows "complete (processingStatus (background_task env db))
     \<and> errors (processingStatus (background_task env db)) = []"
proof -
  let ?s = "\<lparr>telegramUploading = False, hlsProgress = 100, hlsStage = Some ''Processing complete'',
         thumbnailGenerating = False, complete = True, errors = []\<rparr>"
  have pv: "\<And>d. store_script d = [] \<Longrightarrow>
      store_script (process_video env d) = [] \<and> processingStatus (process_video env d) = ?s"
  proof -
    fix d :: db_video
    assume "store_script d = []"
    then have q: "store_script (report_progress (reports env) d) = []"
      by (rule report_progress_script)
    let ?d1 = "report_progress (reports env) d"
    obtain r d2 where rd: "set_status ?s ?d1 = (r, d2)"
      by (cases "set_status ?s ?d1")
    from set_status_quiet [OF q, of ?s] rd
    have e: "set_status ?s ?d1 = (Inr (), d2)" and q2: "store_script d2 = []"
      and p2: "processingStatus d2 = ?s"
      by simp_all
    note b = store_call_quiet [OF q2, of "\<lambda>d. d\<lparr>hlsCloudData := Some (hlsUploaded env)\<rparr>"]
    have "process_video env d =
        (if telegramUploaded env
         then snd (store_call (\<lambda>d. d\<lparr>hlsCloudData := Some (hlsUploaded env)\<rparr>) d2) else d2)"
      using assms(1) e by (simp add: process_video_def Let_def caught_def)
    with b q2 p2 show "store_script (process_video env d) = []
        \<and> processingStatus (process_video env d) = ?s"
      by simp
  qed
  from background_task_quiet [OF assms(2), of env] pv obtain d
    where "store_script d = []"
      and "processingStatus (background_task env db) = processingStatus (process_video env d)"
    by blast
  with pv show ?thesis
    by simp
qed

text \<open>
  Claim C2, at a run whose processing fails. The source is a 720p video with one audio
  track, the encode of every quality fails, so \<^verbatim>\<open>convertToHLSWithProgress\<close> throws after
  its report of 95 percent; the store works throughout. The inner \<^verbatim>\<open>catch\<close> writes
  \<^verbatim>\<open>complete: false\<close> with the error, the cleanup that follows writes no status, and the
  task ends with \<^verbatim>\<open>complete\<close> still false.
\<close>

theorem background_task_processing_failure:
  "processing ex_failing_run = Inl ''Failed to generate any HLS variants''
   \<and> processingStatus (background_task ex_failing_run ex_db) =
       \<lparr>telegramUploading = False, hlsProgress = 0, hlsStage = None,
        thumbnailGenerating = False, complete = False,
        errors = [''Video processing failed: Failed to generate any HLS variants'']\<rparr>
   \<and> \<not> complete (processingStatus (background_task ex_failing_run ex_db))"
proof -
  have p: "processing ex_failing_run = Inl ''Failed to generate any HLS variants''"
    by (simp add: ex_failing_run_def convertToHLSWithProgress_def)
  have q: "store_script ex_db = []"
    by (simp add: ex_db_def)
  from processing_throws_leaves_incomplete [OF p q] p show ?thesis
    by simp
qed

end
